theory Spec2Isabelle
  imports Main "HOL-Library.Multiset" "HOL-Library.AList"
begin

section \<open>Rectangle algebra (rectangle.py)\<close>

text \<open>
  A \<open>Rectangle\<close> is a named tuple of six integers
  \<open>(top, left, bottom, right, cost, area)\<close>; equality is equality of all six.
  The selectors carry the suffix \<open>_of\<close> because \<open>top\<close> is a constant of HOL.
\<close>

datatype rectangle =
  Rectangle (top_of: int) (left_of: int) (bottom_of: int) (right_of: int)
            (cost_of: int) (area_of: int)

type_synonym point = "int \<times> int"

definition make_rectangle :: "int \<Rightarrow> int \<Rightarrow> int \<Rightarrow> int \<Rightarrow> rectangle" where
  "make_rectangle t l b r =
     (let a = (b - t + 1) * (r - l + 1) in Rectangle t l b r (a + 10) a)"

text \<open>\<open>Rectangle.__contains__\<close>: inclusive coordinate ranges.\<close>

fun contains :: "rectangle \<Rightarrow> point \<Rightarrow> bool" where
  "contains rect (r, c) =
     (top_of rect \<le> r \<and> r \<le> bottom_of rect \<and> left_of rect \<le> c \<and> c \<le> right_of rect)"

definition merge :: "rectangle \<Rightarrow> rectangle \<Rightarrow> rectangle" where
  "merge self other =
     (let t = (if top_of self < top_of other then top_of self else top_of other);
          l = (if left_of self < left_of other then left_of self else left_of other);
          b = (if bottom_of self > bottom_of other then bottom_of self else bottom_of other);
          r = (if right_of self > right_of other then right_of self else right_of other);
          a = (b - t + 1) * (r - l + 1)
      in Rectangle t l b r (a + 10) a)"

text \<open>The memoised program-level wrapper; the cache does not change the value.\<close>

definition merge_rectangles :: "rectangle \<Rightarrow> rectangle \<Rightarrow> rectangle" where
  "merge_rectangles rect1 rect2 = merge rect1 rect2"

text \<open>The data-model invariant: cost and area are functions of the bounds.\<close>

definition rect_law :: "rectangle \<Rightarrow> bool" where
  "rect_law R \<longleftrightarrow>
     area_of R = (bottom_of R - top_of R + 1) * (right_of R - left_of R + 1) \<and>
     cost_of R = area_of R + 10"

text \<open>\<open>encloses R A\<close>: the bounds of \<open>R\<close> lie around the bounds of \<open>A\<close>.\<close>

definition encloses :: "rectangle \<Rightarrow> rectangle \<Rightarrow> bool" where
  "encloses R A \<longleftrightarrow>
     top_of R \<le> top_of A \<and> left_of R \<le> left_of A \<and>
     bottom_of A \<le> bottom_of R \<and> right_of A \<le> right_of R"

section \<open>Scores and the best-solution holder (solve\_problems.py)\<close>

text \<open>\<open>sys.maxsize\<close> of a 64-bit CPython; Python integers themselves are unbounded.\<close>

definition maxsize :: int where
  "maxsize = 9223372036854775807"

definition MAX_SUCCESSORS :: nat where
  "MAX_SUCCESSORS = 100"

datatype error = ValueError | IndexError | KeyError

definition get_score :: "rectangle list \<Rightarrow> int" where
  "get_score prt = sum_list (map cost_of prt)"

text \<open>\<open>list.remove(x)\<close>: deletes the first occurrence, raises \<open>ValueError\<close> when there is none.\<close>

definition py_remove :: "'a \<Rightarrow> 'a list \<Rightarrow> error + 'a list" where
  "py_remove x xs = (if x \<in> set xs then Inr (remove1 x xs) else Inl ValueError)"

text \<open>
  The successor list built inside \<open>successors_by_agglomeration\<close>: a copy of the
  partition with \<open>house1\<close> and \<open>house2\<close> removed and the merged house appended.
\<close>

definition make_successor :: "rectangle list \<Rightarrow> rectangle \<Rightarrow> rectangle \<Rightarrow> error + rectangle list" where
  "make_successor greenhouse_list house1 house2 =
     (case py_remove house1 greenhouse_list of
        Inl e \<Rightarrow> Inl e
      | Inr s1 \<Rightarrow>
          (case py_remove house2 s1 of
             Inl e \<Rightarrow> Inl e
           | Inr s2 \<Rightarrow> Inr (s2 @ [merge_rectangles house1 house2])))"

text \<open>The incrementally computed score of that successor.\<close>

definition incremental_score :: "int \<Rightarrow> rectangle \<Rightarrow> rectangle \<Rightarrow> int" where
  "incremental_score base_score house1 house2 =
     base_score - cost_of house1 - cost_of house2 + cost_of (merge_rectangles house1 house2)"

record BestSolution =
  solution_of :: "rectangle list option"
  score_of :: int

definition BestSolution_init :: BestSolution where
  "BestSolution_init = \<lparr> solution_of = None, score_of = maxsize \<rparr>"

definition store :: "BestSolution \<Rightarrow> rectangle list \<Rightarrow> int \<Rightarrow> int \<Rightarrow> BestSolution" where
  "store bs candidate score goal =
     (if score < score_of bs \<and> int (length candidate) \<le> goal
      then bs \<lparr> score_of := score, solution_of := Some candidate \<rparr>
      else bs)"

text \<open>A sequence of \<open>store\<close> calls with one configured maximum \<open>goal\<close>.\<close>

fun store_all :: "int \<Rightarrow> BestSolution \<Rightarrow> (rectangle list \<times> int) list \<Rightarrow> BestSolution" where
  "store_all goal bs [] = bs"
| "store_all goal bs ((candidate, score) # calls) =
     store_all goal (store bs candidate score goal) calls"

text \<open>The invariant of the holder: what is stored respects the maximum.\<close>

definition holder_ok :: "int \<Rightarrow> BestSolution \<Rightarrow> bool" where
  "holder_ok goal bs \<longleftrightarrow>
     (case solution_of bs of None \<Rightarrow> True | Some c \<Rightarrow> int (length c) \<le> goal)"

section \<open>The strawberry field (field.py)\<close>

text \<open>
  The field keeps the berries by row. \<open>top\<close>, \<open>left\<close>, \<open>bottom\<close> and \<open>right\<close> of the
  class are the fields \<open>top_f\<close>, \<open>left_f\<close>, \<open>bottom_f\<close> and \<open>right_f\<close> here.
\<close>

record field =
  rows :: "point list list"
  num_rows :: int
  num_cols :: int
  top_f :: int
  left_f :: int
  right_f :: int
  bottom_f :: int
  maximum_greenhouses :: int
  root_region :: rectangle

text \<open>\<open>enumerate\<close> of a list.\<close>

definition enumerate_py :: "'a list \<Rightarrow> (int \<times> 'a) list" where
  "enumerate_py xs = zip (map int [0..<length xs]) xs"

text \<open>The loop of \<open>add_row\<close> over the characters of one row.\<close>

fun add_row_scan :: "(int \<times> char) list \<Rightarrow> field \<Rightarrow> point list \<Rightarrow> field \<times> point list" where
  "add_row_scan [] f rbuf = (f, rbuf)"
| "add_row_scan ((idx, elem) # es) f rbuf =
     (if elem = CHR ''@''
      then add_row_scan es
             (f \<lparr> top_f := min (top_f f) (num_rows f),
                  left_f := min (left_f f) idx,
                  bottom_f := max (bottom_f f) (num_rows f),
                  right_f := max (right_f f) idx \<rparr>)
             (rbuf @ [(num_rows f, idx)])
      else add_row_scan es f rbuf)"

definition add_row :: "field \<Rightarrow> string \<Rightarrow> field" where
  "add_row f row =
     (case add_row_scan (enumerate_py row) f [] of
        (f', rbuf) \<Rightarrow>
          f' \<lparr> rows := rows f' @ [rbuf],
                num_cols := (if num_cols f' < int (length row) then int (length row)
                             else num_cols f'),
                num_rows := num_rows f' + 1 \<rparr>)"

text \<open>
  The constructor. \<open>maximum\<close> is \<open>int(data[0])\<close> and \<open>data_rows\<close> is \<open>data[1:]\<close>;
  reading the number is the parser's part. \<open>root_region\<close> does not exist in the
  class before its assignment at the end and nothing reads it before.
\<close>

definition field_init :: "int \<Rightarrow> field" where
  "field_init maximum =
     \<lparr> rows = [], num_rows = 0, num_cols = 0, top_f = maxsize, left_f = maxsize,
       right_f = - 1, bottom_f = - 1, maximum_greenhouses = maximum,
       root_region = make_rectangle maxsize maxsize (- 1) (- 1) \<rparr>"

definition add_rows :: "field \<Rightarrow> string list \<Rightarrow> field" where
  "add_rows f data_rows = fold (\<lambda>row f'. add_row f' row) data_rows f"

definition StrawberryField :: "int \<Rightarrow> string list \<Rightarrow> field" where
  "StrawberryField maximum data_rows =
     (let f = add_rows (field_init maximum) data_rows
      in f \<lparr> root_region := make_rectangle (top_f f) (left_f f) (bottom_f f) (right_f f) \<rparr>)"

text \<open>
  Indexing a Python list: a negative index counts from the end, an index outside
  the list raises \<open>IndexError\<close>.
\<close>

definition py_index :: "'a list \<Rightarrow> int \<Rightarrow> error + 'a" where
  "py_index xs i =
     (let n = int (length xs)
      in if 0 \<le> i \<and> i < n then Inr (xs ! nat i)
         else if - n \<le> i \<and> i < 0 then Inr (xs ! nat (n + i))
         else Inl IndexError)"

fun berries_loop :: "field \<Rightarrow> rectangle \<Rightarrow> int list \<Rightarrow> point list \<Rightarrow> error + point list" where
  "berries_loop f rect [] berries = Inr berries"
| "berries_loop f rect (i # is) berries =
     (case py_index (rows f) i of
        Inl e \<Rightarrow> Inl e
      | Inr row \<Rightarrow> berries_loop f rect is (berries @ filter (contains rect) row))"

definition get_berries_in_rectangle :: "field \<Rightarrow> rectangle \<Rightarrow> error + point list" where
  "get_berries_in_rectangle f rect =
     berries_loop f rect [top_of rect .. bottom_of rect] []"

fun strawberries_loop :: "field \<Rightarrow> rectangle \<Rightarrow> int list \<Rightarrow> int \<Rightarrow> error + int" where
  "strawberries_loop f rect [] num = Inr num"
| "strawberries_loop f rect (i # is) num =
     (case py_index (rows f) i of
        Inl e \<Rightarrow> Inl e
      | Inr row \<Rightarrow>
          strawberries_loop f rect is
            (num + int (length (filter (\<lambda>berry. left_of rect \<le> snd berry \<and>
                                                 snd berry \<le> right_of rect) row))))"

definition num_strawberries :: "field \<Rightarrow> rectangle \<Rightarrow> error + int" where
  "num_strawberries f rect = strawberries_loop f rect [top_of rect .. bottom_of rect] 0"

text \<open>
  The rectangle from the minima to the maxima of the coordinates of a non-empty
  list of points, \<open>p # ps\<close>: Python's \<open>min\<close> and \<open>max\<close> of a non-empty list.
\<close>

definition bounding_box :: "point \<Rightarrow> point list \<Rightarrow> rectangle" where
  "bounding_box p ps =
     make_rectangle (fold min (map fst ps) (fst p)) (fold min (map snd ps) (snd p))
                    (fold max (map fst ps) (fst p)) (fold max (map snd ps) (snd p))"


text \<open>The occupied points of a field.\<close>

definition occupied :: "field \<Rightarrow> point set" where
  "occupied f = set (concat (rows f))"

section \<open>Randomness and iteration order\<close>

text \<open>
  \<open>random.shuffle\<close>, \<open>random.sample\<close> and the iteration order of Python's sets and
  dictionaries are not fixed by the program. They are driven here by an explicit
  supply of numbers, so that every result holds for each supply: \<open>randbelow k\<close>
  takes the next number, reduced below \<open>k\<close> (an exhausted supply gives 0), and
  \<open>shuffle\<close> is the loop of \<open>random.shuffle\<close>,
  \<^verbatim>\<open>for i in reversed(xrange(1, len(x))): j = int(random() * (i+1)); x[i], x[j] = x[j], x[i]\<close>.
\<close>

type_synonym rng = "nat list"

fun randbelow :: "nat \<Rightarrow> rng \<Rightarrow> nat \<times> rng" where
  "randbelow k [] = (0, [])"
| "randbelow k (d # ds) = (d mod k, ds)"

fun shuffle_from :: "nat \<Rightarrow> 'a list \<Rightarrow> rng \<Rightarrow> 'a list \<times> rng" where
  "shuffle_from 0 x g = (x, g)"
| "shuffle_from (Suc i) x g =
     (case randbelow (Suc i + 1) g of
        (j, g') \<Rightarrow> shuffle_from i (x[Suc i := x ! j, j := x ! Suc i]) g')"

definition shuffle :: "'a list \<Rightarrow> rng \<Rightarrow> 'a list \<times> rng" where
  "shuffle x g = shuffle_from (length x - 1) x g"

text \<open>\<open>random.sample(population, k)\<close>: \<open>k\<close> members at different positions, in a random order.\<close>

definition sample :: "'a list \<Rightarrow> nat \<Rightarrow> rng \<Rightarrow> 'a list \<times> rng" where
  "sample population k g = (case shuffle population g of (x, g') \<Rightarrow> (take k x, g'))"

text \<open>\<open>itertools.combinations(seq, 2)\<close>: the pairs of positions \<open>i < j\<close>, in lexicographic order.\<close>

fun combinations2 :: "'a list \<Rightarrow> ('a \<times> 'a) list" where
  "combinations2 [] = []"
| "combinations2 (x # xs) = map (Pair x) xs @ combinations2 xs"

text \<open>
  \<open>pairs\<close> shuffles its argument in place and yields the pairs of the shuffled
  list; the shuffled list is returned too, since the caller's list has changed.
\<close>

definition pairs :: "'a list \<Rightarrow> rng \<Rightarrow> ('a \<times> 'a) list \<times> 'a list \<times> rng" where
  "pairs seq g = (case shuffle seq g of (seq', g') \<Rightarrow> (combinations2 seq', seq', g'))"

section \<open>The agglomeration search (solve\_problems.py)\<close>

text \<open>
  The test of the overlap loops: \<open>greenhouse\<close> is skipped when it lies entirely on
  one side of \<open>new_house\<close>.
\<close>

definition overlaps :: "rectangle \<Rightarrow> rectangle \<Rightarrow> bool" where
  "overlaps new_house greenhouse \<longleftrightarrow>
     \<not> (bottom_of greenhouse < top_of new_house \<or> top_of greenhouse > bottom_of new_house \<or>
        right_of greenhouse < left_of new_house \<or> left_of greenhouse > right_of new_house)"

text \<open>The counting loop, which stops as soon as the count exceeds 2.\<close>

fun count_overlaps :: "rectangle \<Rightarrow> rectangle list \<Rightarrow> nat \<Rightarrow> nat" where
  "count_overlaps new_house [] n = n"
| "count_overlaps new_house (greenhouse # rest) n =
     (if \<not> overlaps new_house greenhouse then count_overlaps new_house rest n
      else if n + 1 > 2 then n + 1
      else count_overlaps new_house rest (n + 1))"

text \<open>
  A \<open>frozenset\<close> of rectangles is a list without repetitions, two of them being
  equal when they have the same members; a \<open>set\<close> of frozensets is a list of
  them without two equal ones, and \<open>set_add\<close> is its \<open>add\<close>.
\<close>

definition frozenset :: "'a list \<Rightarrow> 'a list" where
  "frozenset xs = remdups xs"

definition same_members :: "'a list \<Rightarrow> 'a list \<Rightarrow> bool" where
  "same_members xs ys \<longleftrightarrow> set xs \<subseteq> set ys \<and> set ys \<subseteq> set xs"

definition set_add :: "'a list \<Rightarrow> 'a list list \<Rightarrow> 'a list list" where
  "set_add s ss = (if list_ex (same_members s) ss then ss else ss @ [s])"

text \<open>
  The loop over the pairs of one partition. The state is \<open>(best_score, successors)\<close>;
  the second \<open>Inr\<close> of the \<open>elif\<close> branch is the \<open>break\<close>.
\<close>

fun pair_loop ::
  "rectangle list \<Rightarrow> int \<Rightarrow> (rectangle \<times> rectangle) list \<Rightarrow> int \<times> rectangle list list
     \<Rightarrow> error + (int \<times> rectangle list list)" where
  "pair_loop greenhouse_list base_score [] st = Inr st"
| "pair_loop greenhouse_list base_score ((house1, house2) # ps) (best_score, successors) =
     (let new_house = merge_rectangles house1 house2 in
      if count_overlaps new_house greenhouse_list 0 = 2
      then (case make_successor greenhouse_list house1 house2 of
              Inl e \<Rightarrow> Inl e
            | Inr successor \<Rightarrow>
                (let score = incremental_score base_score house1 house2 in
                 if score < best_score
                 then pair_loop greenhouse_list base_score ps (score, [frozenset successor])
                 else if score = best_score
                 then (let successors' = set_add (frozenset successor) successors in
                       if length successors' \<ge> MAX_SUCCESSORS
                       then Inr (best_score, successors')
                       else pair_loop greenhouse_list base_score ps (best_score, successors'))
                 else pair_loop greenhouse_list base_score ps (best_score, successors)))
      else pair_loop greenhouse_list base_score ps (best_score, successors))"

text \<open>The loop over the candidate partitions, with its \<open>break\<close> at the head.\<close>

fun partitions_loop ::
  "rectangle list list \<Rightarrow> rng \<Rightarrow> int \<times> rectangle list list
     \<Rightarrow> error + ((int \<times> rectangle list list) \<times> rng)" where
  "partitions_loop [] g st = Inr (st, g)"
| "partitions_loop (greenhouse_list # rest) g (best_score, successors) =
     (if length successors \<ge> MAX_SUCCESSORS then Inr ((best_score, successors), g)
      else (let base_score = get_score greenhouse_list in
            case pairs greenhouse_list g of
              (ps, shuffled, g') \<Rightarrow>
                (case pair_loop shuffled base_score ps (best_score, successors) of
                   Inl e \<Rightarrow> Inl e
                 | Inr st' \<Rightarrow> partitions_loop rest g' st')))"

text \<open>
  \<open>[[r for r in s] for s in successors]\<close>: the set and each frozenset in it are
  listed in an order that the program does not fix.
\<close>

fun list_each :: "'a list list \<Rightarrow> rng \<Rightarrow> 'a list list \<times> rng" where
  "list_each [] g = ([], g)"
| "list_each (s # ss) g =
     (case shuffle s g of
        (s', g1) \<Rightarrow> (case list_each ss g1 of (ss', g2) \<Rightarrow> (s' # ss', g2)))"

definition set_to_lists :: "'a list list \<Rightarrow> rng \<Rightarrow> 'a list list \<times> rng" where
  "set_to_lists ss g = (case shuffle ss g of (order, g1) \<Rightarrow> list_each order g1)"

definition successors_by_agglomeration ::
  "rectangle list list \<Rightarrow> rng \<Rightarrow> error + (int \<times> rectangle list list \<times> rng)" where
  "successors_by_agglomeration partitions g =
     (case partitions_loop partitions g (maxsize, []) of
        Inl e \<Rightarrow> Inl e
      | Inr ((best_score, successors), g1) \<Rightarrow>
          (case set_to_lists successors g1 of
             (result, g2) \<Rightarrow>
               if length result > MAX_SUCCESSORS
               then (case sample result MAX_SUCCESSORS g2 of
                       (chosen, g3) \<Rightarrow> Inr (best_score, chosen, g3))
               else Inr (best_score, result, g2)))"

text \<open>
  The loop of \<open>agglomerate\<close>. It may not be taken for granted that it ends, so it
  is a partial function: \<open>None\<close> is a run that never returns. The holder keeps
  the list object it is given and a later round shuffles that list in place, so
  the answer of the program is the stored list up to the order of its members; the
  same holds for the caller's partition.
\<close>

partial_function (option) agglomerate_loop ::
  "int \<Rightarrow> int \<Rightarrow> int \<Rightarrow> rectangle list list \<Rightarrow> BestSolution \<Rightarrow> rng
     \<Rightarrow> (error + (rectangle list option list \<times> rng)) option" where
  "agglomerate_loop maximum goal num_greenhouses successors best_solution g =
     (if num_greenhouses \<le> goal then Some (Inr ([solution_of best_solution], g))
      else (case successors_by_agglomeration successors g of
              Inl e \<Rightarrow> Some (Inl e)
            | Inr (score, successors', g') \<Rightarrow>
                (case successors' of
                   [] \<Rightarrow> Some (Inr ([solution_of best_solution], g'))
                 | first # others \<Rightarrow>
                     agglomerate_loop maximum goal (int (length first)) successors'
                       (store best_solution first score maximum) g')))"

declare agglomerate_loop.simps [code]

definition agglomerate ::
  "field \<Rightarrow> rectangle list \<Rightarrow> int \<Rightarrow> rng
     \<Rightarrow> (error + (rectangle list option list \<times> rng)) option" where
  "agglomerate f prt goal g =
     agglomerate_loop (maximum_greenhouses f) goal (int (length prt)) [prt]
       (store BestSolution_init prt (get_score prt) (maximum_greenhouses f)) g"

text \<open>The columns of the berries among the enumerated characters of a row.\<close>

definition berry_cols :: "(int \<times> char) list \<Rightarrow> int list" where
  "berry_cols es = map fst (filter (\<lambda>(idx, elem). elem = CHR ''@'') es)"

text \<open>
  What the constructor establishes: row \<open>i\<close> holds berries of row \<open>i\<close>, inside the
  grid and without repetition, the four bounds lie around every berry and each
  of them is its initial value or the coordinate of a berry.
\<close>

definition field_ok :: "field \<Rightarrow> bool" where
  "field_ok f \<longleftrightarrow>
     num_rows f = int (length (rows f)) \<and> 0 \<le> num_cols f \<and>
     (\<forall>i<length (rows f). \<forall>b\<in>set (rows f ! i).
         fst b = int i \<and> 0 \<le> snd b \<and> snd b < num_cols f) \<and>
     distinct (concat (rows f)) \<and>
     (\<forall>b\<in>occupied f. top_f f \<le> fst b \<and> fst b \<le> bottom_f f \<and>
                       left_f f \<le> snd b \<and> snd b \<le> right_f f) \<and>
     0 \<le> top_f f \<and> bottom_f f < num_rows f \<and>
     (top_f f = maxsize \<or> (\<exists>b\<in>occupied f. fst b = top_f f)) \<and>
     (left_f f = maxsize \<or> (\<exists>b\<in>occupied f. snd b = left_f f)) \<and>
     (bottom_f f = - 1 \<or> (\<exists>b\<in>occupied f. fst b = bottom_f f)) \<and>
     (right_f f = - 1 \<or> (\<exists>b\<in>occupied f. snd b = right_f f))"

text \<open>A rectangle with at least one cell.\<close>

definition proper :: "rectangle \<Rightarrow> bool" where
  "proper r \<longleftrightarrow> top_of r \<le> bottom_of r \<and> left_of r \<le> right_of r"

section \<open>What a round of the search is to return\<close>

text \<open>
  The successor list of a pair, a pair of members of a partition that passes the
  locality test, and a successor that comes from such a pair with a given
  incremental score: it has the members of the successor list, each once.
\<close>

definition successor_of :: "rectangle list \<Rightarrow> rectangle \<Rightarrow> rectangle \<Rightarrow> rectangle list" where
  "successor_of P h1 h2 = remove1 h2 (remove1 h1 P) @ [merge_rectangles h1 h2]"

definition valid_merge :: "rectangle list \<Rightarrow> rectangle \<Rightarrow> rectangle \<Rightarrow> bool" where
  "valid_merge P h1 h2 \<longleftrightarrow>
     h1 \<in> set P \<and> h2 \<in> set (remove1 h1 P) \<and> count_overlaps (merge_rectangles h1 h2) P 0 = 2"

definition merged_from :: "rectangle list \<Rightarrow> int \<Rightarrow> rectangle list \<Rightarrow> bool" where
  "merged_from P score s \<longleftrightarrow>
     (\<exists>h1\<in>set P. \<exists>h2\<in>set P.
        valid_merge P h1 h2 \<and> incremental_score (get_score P) h1 h2 = score \<and>
        distinct s \<and> set s = set (successor_of P h1 h2))"

text \<open>
  A round of 101 candidate partitions of two rectangles each. The merges of the
  first hundred cost 13 each and differ from one another; the merge of the last
  costs 12.
\<close>

definition early_candidates :: "rectangle list list" where
  "early_candidates = map (\<lambda>i. [make_rectangle i 0 i 0, make_rectangle i 2 i 2]) [0 .. 99]"

definition late_candidate :: "rectangle list" where
  "late_candidate = [make_rectangle 0 0 0 0, make_rectangle 0 1 0 1]"

text \<open>
  The invariants of the partitions of the initial-partition builder: a rectangle
  with at least one cell whose rows lie in the grid, a run of points of one line of
  the grid, and a partition of such rectangles without repetitions.
\<close>

definition in_rows :: "field \<Rightarrow> rectangle \<Rightarrow> bool" where
  "in_rows f r \<longleftrightarrow> proper r \<and> 0 \<le> top_of r \<and> bottom_of r < num_rows f"

definition line_run :: "point list \<Rightarrow> bool" where
  "line_run run \<longleftrightarrow>
     run \<noteq> [] \<and> ((\<exists>c. \<forall>p\<in>set run. snd p = c) \<or> (\<exists>r. \<forall>p\<in>set run. fst p = r))"

definition part_ok :: "field \<Rightarrow> rectangle list \<Rightarrow> bool" where
  "part_ok f prt \<longleftrightarrow> distinct prt \<and> (\<forall>r\<in>set prt. in_rows f r)"

section \<open>The initial partition (solve\_problems.py)\<close>

text \<open>
  The scan of one line of the grid (a row for the horizontal runs, a column for
  the vertical ones): \<open>buf\<close> collects consecutive berries, and a run of more than
  one point is yielded when it ends.
\<close>

fun scan_line :: "point list \<Rightarrow> point list \<Rightarrow> point list \<Rightarrow> point list list" where
  "scan_line berries [] buf = (if length buf > 1 then [buf] else [])"
| "scan_line berries (pnt # rest) buf =
     (if pnt \<in> set berries then scan_line berries rest (buf @ [pnt])
      else if buf \<noteq> []
           then (if length buf > 1 then buf # scan_line berries rest []
                 else scan_line berries rest [])
           else scan_line berries rest buf)"

definition get_horizontal_runs :: "field \<Rightarrow> error + point list list" where
  "get_horizontal_runs f =
     (case get_berries_in_rectangle f (root_region f) of
        Inl e \<Rightarrow> Inl e
      | Inr berries \<Rightarrow>
          Inr (concat (map (\<lambda>row. scan_line berries
                                     (map (\<lambda>col. (row, col)) [0 .. num_cols f - 1]) [])
                           [0 .. num_rows f - 1])))"

definition get_vertical_runs :: "field \<Rightarrow> error + point list list" where
  "get_vertical_runs f =
     (case get_berries_in_rectangle f (root_region f) of
        Inl e \<Rightarrow> Inl e
      | Inr berries \<Rightarrow>
          Inr (concat (map (\<lambda>col. scan_line berries
                                     (map (\<lambda>row. (row, col)) [0 .. num_rows f - 1]) [])
                           [0 .. num_cols f - 1])))"

text \<open>\<open>min\<close> and \<open>max\<close> of an empty list raise \<open>ValueError\<close>.\<close>

definition pointlist2rectangle :: "point list \<Rightarrow> error + rectangle" where
  "pointlist2rectangle point_list =
     (case point_list of [] \<Rightarrow> Inl ValueError | p # ps \<Rightarrow> Inr (bounding_box p ps))"

text \<open>A list comprehension whose body may raise: the first error ends it.\<close>

fun map_or_error :: "('a \<Rightarrow> error + 'b) \<Rightarrow> 'a list \<Rightarrow> error + 'b list" where
  "map_or_error h [] = Inr []"
| "map_or_error h (x # xs) =
     (case h x of
        Inl e \<Rightarrow> Inl e
      | Inr y \<Rightarrow> (case map_or_error h xs of Inl e \<Rightarrow> Inl e | Inr ys \<Rightarrow> Inr (y # ys)))"

definition assign_open_greenhouses :: "field \<Rightarrow> rectangle list \<Rightarrow> error + rectangle list" where
  "assign_open_greenhouses f prt =
     (case get_berries_in_rectangle f (root_region f) of
        Inl e \<Rightarrow> Inl e
      | Inr berries \<Rightarrow>
          (let sp = sort_key area_of prt
           in Inr (fold (\<lambda>berry p.
                           if list_ex (\<lambda>r. contains r berry) sp then p
                           else p @ [make_rectangle (fst berry) (snd berry)
                                                    (fst berry) (snd berry)])
                        berries prt)))"

text \<open>
  One pass of \<open>combine_and_maintain_density\<close> over the pairs of the copy; the state
  is the partition and \<open>num_merged\<close>.
\<close>

fun density_pass ::
  "field \<Rightarrow> (rectangle \<times> rectangle) list \<Rightarrow> rectangle list \<Rightarrow> nat
     \<Rightarrow> error + (rectangle list \<times> nat)" where
  "density_pass f [] prt num_merged = Inr (prt, num_merged)"
| "density_pass f ((first, second) # ps) prt num_merged =
     (if first \<notin> set prt then density_pass f ps prt num_merged
      else if second \<notin> set prt then density_pass f ps prt num_merged
      else (let merged = merge_rectangles first second in
            case num_strawberries f merged of
              Inl e \<Rightarrow> Inl e
            | Inr fns_merged \<Rightarrow>
                if fns_merged = area_of merged
                then (if count_overlaps merged prt 0 = 2
                      then (case py_remove first prt of
                              Inl e \<Rightarrow> Inl e
                            | Inr p1 \<Rightarrow>
                                (case py_remove second p1 of
                                   Inl e \<Rightarrow> Inl e
                                 | Inr p2 \<Rightarrow>
                                     density_pass f ps (p2 @ [merged]) (num_merged + 1)))
                      else density_pass f ps prt num_merged)
                else density_pass f ps prt num_merged))"

text \<open>\<open>_get_rect_id\<close> and \<open>list_berries\<close>.\<close>

fun rect_id_loop :: "point \<Rightarrow> (int \<times> rectangle) list \<Rightarrow> int option" where
  "rect_id_loop berry [] = None"
| "rect_id_loop berry ((idx, rect) # rest) =
     (if contains rect berry then Some idx else rect_id_loop berry rest)"

definition get_rect_id :: "point \<Rightarrow> rectangle list \<Rightarrow> int option" where
  "get_rect_id berry prt = rect_id_loop berry (enumerate_py prt)"

definition list_berries :: "field \<Rightarrow> rectangle list \<Rightarrow> error + (point \<times> int option) list" where
  "list_berries f prt =
     (case get_berries_in_rectangle f (root_region f) of
        Inl e \<Rightarrow> Inl e
      | Inr berries \<Rightarrow> Inr (map (\<lambda>berry. (berry, get_rect_id berry prt)) berries))"

text \<open>
  The dictionaries \<open>mix\<close> and \<open>mirror\<close> are association lists with one entry for a
  key (\<open>AList.update\<close> is the assignment \<open>d[k] = v\<close>); reading a missing key raises
  \<open>KeyError\<close>.
\<close>

fun mix_first :: "(point \<times> int option) list \<Rightarrow> (point \<times> int option list) list
     \<Rightarrow> (point \<times> int option list) list" where
  "mix_first [] mix = mix"
| "mix_first ((berry, idx) # rest) mix = mix_first rest (AList.update berry [idx] mix)"

fun mix_second :: "(point \<times> int option) list \<Rightarrow> (point \<times> int option list) list
     \<Rightarrow> error + (point \<times> int option list) list" where
  "mix_second [] mix = Inr mix"
| "mix_second ((berry, idx) # rest) mix =
     (case map_of mix berry of
        None \<Rightarrow> Inl KeyError
      | Some ids \<Rightarrow> mix_second rest (AList.update berry (ids @ [idx]) mix))"

fun mirror_loop :: "point list \<Rightarrow> (point \<times> int option list) list
     \<Rightarrow> (int option list \<times> point list) list
     \<Rightarrow> error + (int option list \<times> point list) list" where
  "mirror_loop [] mix mirror = Inr mirror"
| "mirror_loop (berry # rest) mix mirror =
     (case map_of mix berry of
        None \<Rightarrow> Inl KeyError
      | Some k \<Rightarrow>
          (let mirror1 = (case map_of mirror k of
                            None \<Rightarrow> AList.update k [] mirror
                          | Some v \<Rightarrow> mirror)
           in case map_of mirror1 k of
                None \<Rightarrow> Inl KeyError
              | Some v \<Rightarrow> mirror_loop rest mix (AList.update k (v @ [berry]) mirror1)))"

fun state_loop :: "int option list list \<Rightarrow> (int option list \<times> point list) list
     \<Rightarrow> rectangle list \<Rightarrow> error + rectangle list" where
  "state_loop [] mirror state = Inr state"
| "state_loop (k # rest) mirror state =
     (case map_of mirror k of
        None \<Rightarrow> Inl KeyError
      | Some pts \<Rightarrow>
          (case pointlist2rectangle pts of
             Inl e \<Rightarrow> Inl e
           | Inr rect \<Rightarrow> state_loop rest mirror (state @ [rect])))"

text \<open>
  Every merge of a pass takes two rectangles out of the partition and puts one in,
  which is why the loop of \<open>combine_and_maintain_density\<close> ends.
\<close>

lemma density_pass_length:
  "density_pass f ps prt n = Inr (prt', n') \<Longrightarrow> length prt' + n' = length prt + n"
proof (induction f ps prt n rule: density_pass.induct)
  case (1 f prt num_merged)
  then show ?case by simp
next
  case (2 f first second ps prt num_merged)
  show ?case
  proof (cases "first \<in> set prt \<and> second \<in> set prt")
    case False
    with "2.prems" "2.IH"(1,2) show ?thesis by (auto split: if_splits)
  next
    case True
    note mem = this
    obtain cnt where cnt: "num_strawberries f (merge_rectangles first second) = Inr cnt"
      using "2.prems" mem by (cases "num_strawberries f (merge_rectangles first second)")
        (auto simp: Let_def)
    show ?thesis
    proof (cases "cnt = area_of (merge_rectangles first second) \<and>
                  count_overlaps (merge_rectangles first second) prt 0 = 2")
      case False
      then show ?thesis
        using "2.prems" "2.IH"(4,5) [OF _ _ refl cnt] mem cnt
        by (auto simp: Let_def split: if_splits)
    next
      case True
      note ok = this
      obtain p2 where p2: "py_remove second (remove1 first prt) = Inr p2"
        using "2.prems" mem cnt ok
        by (cases "py_remove second (remove1 first prt)") (auto simp: Let_def py_remove_def)
      then have sec: "second \<in> set (remove1 first prt)" and p2_eq: "p2 = remove1 second (remove1 first prt)"
        by (auto simp: py_remove_def split: if_splits)
      have p1: "py_remove first prt = Inr (remove1 first prt)"
        using mem by (simp add: py_remove_def)
      have rec: "density_pass f ps (p2 @ [merge_rectangles first second]) (num_merged + 1) = Inr (prt', n')"
        using "2.prems" mem cnt ok p1 p2 by (simp add: Let_def)
      have "length prt' + n' = length (p2 @ [merge_rectangles first second]) + (num_merged + 1)"
        using "2.IH"(3) [OF _ _ refl cnt _ _ p1 p2 rec] mem ok by simp
      moreover have "length (remove1 first prt) = length prt - 1"
        using mem by (simp add: length_remove1)
      moreover have "length p2 = length (remove1 first prt) - 1"
        using sec p2_eq by (simp add: length_remove1)
      moreover have "length (remove1 first prt) > 0"
        using sec by (cases "remove1 first prt") auto
      ultimately show ?thesis by simp
    qed
  qed
qed

function combine_loop ::
  "field \<Rightarrow> rectangle list \<Rightarrow> rectangle list \<Rightarrow> rng \<Rightarrow> error + (rectangle list \<times> rng)" where
  "combine_loop f pcopy prt g =
     (case density_pass f (fst (pairs pcopy g)) prt 0 of
        Inl e \<Rightarrow> Inl e
      | Inr (prt', num_merged) \<Rightarrow>
          if num_merged = 0 then Inr (prt', snd (snd (pairs pcopy g)))
          else combine_loop f prt' prt' (snd (snd (pairs pcopy g))))"
  by pat_completeness auto
termination
proof (relation "measure (\<lambda>(f, pcopy, prt, g). length prt)")
  show "wf (measure (\<lambda>(f, pcopy, prt, g). length prt))" by simp
next
  fix f :: field and pcopy prt :: "rectangle list" and g :: rng
    and x2 :: "rectangle list \<times> nat" and prt' :: "rectangle list" and num_merged :: nat
  assume "density_pass f (fst (pairs pcopy g)) prt 0 = Inr x2"
    and "(prt', num_merged) = x2" and "num_merged \<noteq> 0"
  then have "length prt' + num_merged = length prt + 0"
    using density_pass_length [of f "fst (pairs pcopy g)" prt 0 prt' num_merged] by simp
  with \<open>num_merged \<noteq> 0\<close>
  show "((f, prt', prt', snd (snd (pairs pcopy g))), (f, pcopy, prt, g))
          \<in> measure (\<lambda>(f, pcopy, prt, g). length prt)"
    by simp
qed

declare combine_loop.simps [simp del]

definition combine_and_maintain_density ::
  "field \<Rightarrow> rectangle list \<Rightarrow> rng \<Rightarrow> error + (rectangle list \<times> rng)" where
  "combine_and_maintain_density f prt g = combine_loop f prt prt g"

text \<open>
  \<open>runs_to_partition\<close> is the three steps that \<open>get_start_state\<close> applies to the
  runs of each direction; its second part crosses the two partitions. The keys
  of a dictionary are visited in an order that the program does not fix.
\<close>

definition runs_to_partition ::
  "field \<Rightarrow> error + point list list \<Rightarrow> rng \<Rightarrow> error + (rectangle list \<times> rng)" where
  "runs_to_partition f runs g =
     (case runs of
        Inl e \<Rightarrow> Inl e
      | Inr rs \<Rightarrow>
          (case map_or_error pointlist2rectangle rs of
             Inl e \<Rightarrow> Inl e
           | Inr rects \<Rightarrow>
               (case assign_open_greenhouses f rects of
                  Inl e \<Rightarrow> Inl e
                | Inr assigned \<Rightarrow> combine_and_maintain_density f assigned g)))"

definition cross_partitions ::
  "field \<Rightarrow> rectangle list \<Rightarrow> rectangle list \<Rightarrow> rng \<Rightarrow> error + (rectangle list \<times> rng)" where
  "cross_partitions f horiz_runs vertical_runs g =
     (case list_berries f horiz_runs of
        Inl e \<Rightarrow> Inl e
      | Inr lh \<Rightarrow>
          (case list_berries f vertical_runs of
             Inl e \<Rightarrow> Inl e
           | Inr lv \<Rightarrow>
               (case mix_second lv (mix_first lh []) of
                  Inl e \<Rightarrow> Inl e
                | Inr mix \<Rightarrow>
                    (case shuffle (map fst mix) g of
                       (berry_order, g1) \<Rightarrow>
                         (case mirror_loop berry_order mix [] of
                            Inl e \<Rightarrow> Inl e
                          | Inr mirror \<Rightarrow>
                              (case shuffle (map fst mirror) g1 of
                                 (key_order, g2) \<Rightarrow>
                                   (case state_loop key_order mirror [] of
                                      Inl e \<Rightarrow> Inl e
                                    | Inr state \<Rightarrow> Inr (state, g2))))))))"

definition get_start_state :: "field \<Rightarrow> rng \<Rightarrow> error + (rectangle list \<times> rng)" where
  "get_start_state f g =
     (case runs_to_partition f (get_vertical_runs f) g of
        Inl e \<Rightarrow> Inl e
      | Inr (vertical_runs, g1) \<Rightarrow>
          (case runs_to_partition f (get_horizontal_runs f) g1 of
             Inl e \<Rightarrow> Inl e
           | Inr (horiz_runs, g2) \<Rightarrow> cross_partitions f horiz_runs vertical_runs g2))"

section \<open>Properties of the rectangle algebra\<close>

lemma rect_law_make_rectangle: "rect_law (make_rectangle t l b r)"
  by (simp add: rect_law_def make_rectangle_def Let_def)

lemma rect_law_merge: "rect_law (merge A B)"
  by (simp add: rect_law_def merge_def Let_def)

lemma merge_bounds:
  "top_of (merge A B) = min (top_of A) (top_of B)"
  "left_of (merge A B) = min (left_of A) (left_of B)"
  "bottom_of (merge A B) = max (bottom_of A) (bottom_of B)"
  "right_of (merge A B) = max (right_of A) (right_of B)"
  by (simp_all add: merge_def Let_def min_def max_def)

lemma merge_as_make_rectangle:
  "merge A B = make_rectangle (min (top_of A) (top_of B)) (min (left_of A) (left_of B))
                              (max (bottom_of A) (bottom_of B)) (max (right_of A) (right_of B))"
  by (simp add: merge_def make_rectangle_def Let_def min_def max_def)

lemma contains_merge_left: "contains A p \<Longrightarrow> contains (merge A B) p"
  by (cases p) (auto simp: merge_bounds)

lemma contains_merge_right: "contains B p \<Longrightarrow> contains (merge A B) p"
  by (cases p) (auto simp: merge_bounds)

text \<open>
  C7. \<open>merge A B\<close> is the smallest axis-aligned rectangle around \<open>A\<close> and \<open>B\<close>: its
  top and left are the minima and its bottom and right the maxima of the inputs'
  bounds, it encloses both inputs, every point of \<open>A\<close> or of \<open>B\<close> lies in it, and
  every rectangle \<open>R\<close> that encloses both inputs, or that contains the points of
  both when each has a cell, encloses it. Its area is
  \<open>(bottom - top + 1) * (right - left + 1)\<close> of the new bounds and its cost is the
  area plus 10; the same law holds for every result of \<open>make_rectangle\<close>.
\<close>

theorem merge_smallest_bounding_rectangle:
  "top_of (merge A B) = min (top_of A) (top_of B) \<and>
   left_of (merge A B) = min (left_of A) (left_of B) \<and>
   bottom_of (merge A B) = max (bottom_of A) (bottom_of B) \<and>
   right_of (merge A B) = max (right_of A) (right_of B) \<and>
   encloses (merge A B) A \<and> encloses (merge A B) B \<and>
   (contains A p \<or> contains B p \<longrightarrow> contains (merge A B) p) \<and>
   (encloses R A \<and> encloses R B \<longrightarrow> encloses R (merge A B)) \<and>
   (proper A \<and> proper B \<and> (\<forall>q. contains A q \<or> contains B q \<longrightarrow> contains R q)
      \<longrightarrow> encloses R (merge A B)) \<and>
   area_of (merge A B) =
     (bottom_of (merge A B) - top_of (merge A B) + 1) *
     (right_of (merge A B) - left_of (merge A B) + 1) \<and>
   cost_of (merge A B) = area_of (merge A B) + 10 \<and>
   area_of (make_rectangle t l b r) = (b - t + 1) * (r - l + 1) \<and>
   cost_of (make_rectangle t l b r) = area_of (make_rectangle t l b r) + 10 \<and>
   top_of (make_rectangle t l b r) = t \<and> left_of (make_rectangle t l b r) = l \<and>
   bottom_of (make_rectangle t l b r) = b \<and> right_of (make_rectangle t l b r) = r"
proof -
  have law: "rect_law (merge A B)" by (rule rect_law_merge)
  have pts: "contains A p \<or> contains B p \<longrightarrow> contains (merge A B) p"
    using contains_merge_left contains_merge_right by blast
  have enc: "encloses (merge A B) A" "encloses (merge A B) B"
    by (simp_all add: encloses_def merge_bounds)
  have least: "encloses R A \<and> encloses R B \<longrightarrow> encloses R (merge A B)"
    by (simp add: encloses_def merge_bounds)
  have corners: "\<And>C. proper C \<Longrightarrow> \<forall>q. contains C q \<longrightarrow> contains R q \<Longrightarrow> encloses R C"
  proof -
    fix C assume C: "proper C" "\<forall>q. contains C q \<longrightarrow> contains R q"
    have "contains C (top_of C, left_of C)" "contains C (bottom_of C, right_of C)"
      using C(1) by (simp_all add: proper_def)
    with C(2) have "contains R (top_of C, left_of C)" "contains R (bottom_of C, right_of C)"
      by blast+
    then show "encloses R C" by (simp add: encloses_def)
  qed
  have least_pts: "proper A \<and> proper B \<and> (\<forall>q. contains A q \<or> contains B q \<longrightarrow> contains R q)
      \<longrightarrow> encloses R (merge A B)"
  proof
    assume a: "proper A \<and> proper B \<and> (\<forall>q. contains A q \<or> contains B q \<longrightarrow> contains R q)"
    then have "encloses R A" "encloses R B" using corners by blast+
    with least show "encloses R (merge A B)" by blast
  qed
  have mk: "area_of (make_rectangle t l b r) = (b - t + 1) * (r - l + 1)"
    "cost_of (make_rectangle t l b r) = area_of (make_rectangle t l b r) + 10"
    "top_of (make_rectangle t l b r) = t" "left_of (make_rectangle t l b r) = l"
    "bottom_of (make_rectangle t l b r) = b" "right_of (make_rectangle t l b r) = r"
    by (simp_all add: make_rectangle_def Let_def)
  from law have "area_of (merge A B) =
     (bottom_of (merge A B) - top_of (merge A B) + 1) *
     (right_of (merge A B) - left_of (merge A B) + 1)"
    and "cost_of (merge A B) = area_of (merge A B) + 10"
    by (simp_all add: rect_law_def)
  with pts enc least least_pts mk show ?thesis
    by (simp only: merge_bounds simp_thms)
qed

theorem merge_smallest_bounding_rectangle_witness:
  "(contains (make_rectangle 0 2 3 4) (3, 2) \<or> contains (make_rectangle 1 3 4 5) (3, 2)) \<and>
   contains (merge (make_rectangle 0 2 3 4) (make_rectangle 1 3 4 5)) (3, 2) \<and>
   encloses (make_rectangle 0 0 9 9) (make_rectangle 0 2 3 4) \<and>
   encloses (make_rectangle 0 0 9 9) (make_rectangle 1 3 4 5) \<and>
   encloses (make_rectangle 0 0 9 9) (merge (make_rectangle 0 2 3 4) (make_rectangle 1 3 4 5)) \<and>
   merge (make_rectangle 0 2 3 4) (make_rectangle 1 3 4 5) = Rectangle 0 2 4 5 30 20"
  using merge_smallest_bounding_rectangle
    [of "make_rectangle 0 2 3 4" "make_rectangle 1 3 4 5" "(3, 2)" "make_rectangle 0 0 9 9"]
  by (simp add: make_rectangle_def merge_def encloses_def Let_def)

text \<open>
  C10. Merging is commutative, and merging a rectangle with itself gives the same
  rectangle back; a rectangle here is a value of the data model, whose cost and
  area are the functions of its bounds (\<open>rect_law\<close>). Every result of
  \<open>make_rectangle\<close> and of \<open>merge\<close> is one, so for these the merge with itself
  is the rectangle without any condition.
\<close>

theorem merge_commutative_idempotent:
  "merge A B = merge B A \<and> (rect_law A \<longrightarrow> merge A A = A) \<and>
   rect_law (make_rectangle t l b r) \<and> rect_law (merge A B) \<and>
   merge (make_rectangle t l b r) (make_rectangle t l b r) = make_rectangle t l b r \<and>
   merge (merge A B) (merge A B) = merge A B"
proof -
  have idem: "\<And>R. rect_law R \<Longrightarrow> merge R R = R"
  proof -
    fix R assume "rect_law R"
    then show "merge R R = R" by (cases R) (simp add: rect_law_def merge_def Let_def)
  qed
  have "merge A B = merge B A"
    by (simp add: merge_as_make_rectangle min.commute max.commute)
  moreover have "merge (make_rectangle t l b r) (make_rectangle t l b r) = make_rectangle t l b r"
    by (rule idem) (rule rect_law_make_rectangle)
  moreover have "merge (merge A B) (merge A B) = merge A B"
    by (rule idem) (rule rect_law_merge)
  ultimately show ?thesis
    using idem [of A] rect_law_make_rectangle [of t l b r] rect_law_merge [of A B] by blast
qed

theorem merge_commutative_idempotent_witness:
  "rect_law (make_rectangle 0 2 3 4) \<and>
   merge (make_rectangle 0 2 3 4) (make_rectangle 0 2 3 4) = make_rectangle 0 2 3 4 \<and>
   merge (make_rectangle 0 2 3 4) (make_rectangle 1 3 4 5) =
   merge (make_rectangle 1 3 4 5) (make_rectangle 0 2 3 4)"
  using merge_commutative_idempotent [of "make_rectangle 0 2 3 4" "make_rectangle 1 3 4 5"]
        merge_commutative_idempotent [of "make_rectangle 0 2 3 4" "make_rectangle 0 2 3 4"]
        rect_law_make_rectangle [of 0 2 3 4]
  by simp

section \<open>Properties of scoring and of the best-solution holder\<close>

lemma get_score_remove1:
  "x \<in> set xs \<Longrightarrow> get_score (remove1 x xs) = get_score xs - cost_of x"
  by (simp add: get_score_def sum_list_map_remove1 [of x xs cost_of])

lemma nth_pair_in_remove1:
  assumes "i < length P" "j < length P" "i \<noteq> j"
  shows "P ! j \<in> set (remove1 (P ! i) P)"
proof -
  have "P = take i P @ P ! i # drop (Suc i) P"
    using assms(1) by (rule id_take_nth_drop)
  then have "mset P = mset (take i P @ P ! i # drop (Suc i) P)"
    by simp
  then have split: "mset P = mset (take i P) + {#P ! i#} + mset (drop (Suc i) P)"
    by (simp only: mset_append mset.simps) simp
  have "P ! j \<in> set (take i P) \<or> P ! j \<in> set (drop (Suc i) P)"
  proof (cases "j < i")
    case True
    then have "P ! j = take i P ! j" by simp
    moreover have "j < length (take i P)" using True assms(1) by simp
    ultimately show ?thesis by (metis nth_mem)
  next
    case False
    with assms have lt: "i < j" by simp
    then have "j - Suc i < length (drop (Suc i) P)" using assms(2) by simp
    moreover have "drop (Suc i) P ! (j - Suc i) = P ! j" using lt assms(2) by simp
    ultimately show ?thesis by (metis nth_mem)
  qed
  then have "P ! j \<in># mset (take i P) + mset (drop (Suc i) P)" by auto
  moreover have "mset (remove1 (P ! i) P) = mset (take i P) + mset (drop (Suc i) P)"
    by (simp add: split)
  ultimately show ?thesis by (metis set_mset_mset)
qed

lemma make_successor_score:
  assumes "h1 \<in> set P" "h2 \<in> set (remove1 h1 P)"
  shows "make_successor P h1 h2 = Inr (remove1 h2 (remove1 h1 P) @ [merge_rectangles h1 h2])"
    and "get_score (remove1 h2 (remove1 h1 P) @ [merge_rectangles h1 h2]) =
         incremental_score (get_score P) h1 h2"
proof -
  show "make_successor P h1 h2 = Inr (remove1 h2 (remove1 h1 P) @ [merge_rectangles h1 h2])"
    using assms by (simp add: make_successor_def py_remove_def)
  have "get_score (remove1 h2 (remove1 h1 P)) = get_score P - cost_of h1 - cost_of h2"
    using assms by (simp add: get_score_remove1)
  then show "get_score (remove1 h2 (remove1 h1 P) @ [merge_rectangles h1 h2]) =
         incremental_score (get_score P) h1 h2"
    by (simp add: get_score_def incremental_score_def)
qed

text \<open>
  C5. For every partition \<open>P\<close> and two members of it, either two different
  rectangles or the rectangles at two different positions (the pairs that
  \<open>combinations\<close> yields), the successor list is built without error and the sum
  of its members' costs is the incrementally computed score
  \<open>get_score P - cost h1 - cost h2 + cost (merge h1 h2)\<close>.
\<close>

theorem incremental_score_is_recomputed_score:
  "(h1 \<in> set P \<and> h2 \<in> set P \<and> h1 \<noteq> h2 \<longrightarrow>
      (\<exists>S. make_successor P h1 h2 = Inr S \<and>
           S = remove1 h2 (remove1 h1 P) @ [merge_rectangles h1 h2] \<and>
           get_score S = incremental_score (get_score P) h1 h2)) \<and>
   (i < length P \<and> j < length P \<and> i \<noteq> j \<longrightarrow>
      (\<exists>S. make_successor P (P ! i) (P ! j) = Inr S \<and>
           S = remove1 (P ! j) (remove1 (P ! i) P) @ [merge_rectangles (P ! i) (P ! j)] \<and>
           get_score S = incremental_score (get_score P) (P ! i) (P ! j)))"
proof (intro conjI impI)
  assume a: "h1 \<in> set P \<and> h2 \<in> set P \<and> h1 \<noteq> h2"
  then have "h2 \<in> set (remove1 h1 P)" by (metis in_set_remove1)
  with a show "\<exists>S. make_successor P h1 h2 = Inr S \<and>
           S = remove1 h2 (remove1 h1 P) @ [merge_rectangles h1 h2] \<and>
           get_score S = incremental_score (get_score P) h1 h2"
    using make_successor_score [of h1 P h2] by simp
next
  assume a: "i < length P \<and> j < length P \<and> i \<noteq> j"
  then have "P ! i \<in> set P" "P ! j \<in> set (remove1 (P ! i) P)"
    using nth_pair_in_remove1 [of i P j] by simp_all
  then show "\<exists>S. make_successor P (P ! i) (P ! j) = Inr S \<and>
           S = remove1 (P ! j) (remove1 (P ! i) P) @ [merge_rectangles (P ! i) (P ! j)] \<and>
           get_score S = incremental_score (get_score P) (P ! i) (P ! j)"
    using make_successor_score [of "P ! i" P "P ! j"] by simp
qed

theorem incremental_score_is_recomputed_score_witness:
  "make_successor [make_rectangle 0 0 0 0, make_rectangle 5 5 5 5, make_rectangle 0 2 0 2]
       (make_rectangle 0 0 0 0) (make_rectangle 0 2 0 2) =
     Inr [make_rectangle 5 5 5 5, make_rectangle 0 0 0 2] \<and>
   get_score [make_rectangle 5 5 5 5, make_rectangle 0 0 0 2] = 24 \<and>
   incremental_score
     (get_score [make_rectangle 0 0 0 0, make_rectangle 5 5 5 5, make_rectangle 0 2 0 2])
     (make_rectangle 0 0 0 0) (make_rectangle 0 2 0 2) = 24"
  using incremental_score_is_recomputed_score
    [of "make_rectangle 0 0 0 0"
        "[make_rectangle 0 0 0 0, make_rectangle 5 5 5 5, make_rectangle 0 2 0 2]"
        "make_rectangle 0 2 0 2" 0 2]
  by (simp add: make_rectangle_def merge_rectangles_def merge_def get_score_def
      incremental_score_def Let_def)

lemma store_score_le: "score_of (store bs c s g) \<le> score_of bs"
  by (simp add: store_def)

lemma store_holder_ok: "holder_ok g bs \<Longrightarrow> holder_ok g (store bs c s g)"
  by (simp add: store_def holder_ok_def)

lemma store_all_score_le: "score_of (store_all g bs calls) \<le> score_of bs"
proof (induction calls arbitrary: bs)
  case Nil
  show ?case by simp
next
  case (Cons call calls)
  obtain c s where call: "call = (c, s)" by (cases call)
  have "score_of (store_all g (store bs c s g) calls) \<le> score_of (store bs c s g)"
    by (rule Cons.IH)
  also have "\<dots> \<le> score_of bs" by (rule store_score_le)
  finally show ?case by (simp add: call)
qed

lemma store_all_holder_ok: "holder_ok g bs \<Longrightarrow> holder_ok g (store_all g bs calls)"
proof (induction calls arbitrary: bs)
  case Nil
  then show ?case by simp
next
  case (Cons call calls)
  obtain c s where call: "call = (c, s)" by (cases call)
  from Cons.prems have "holder_ok g (store bs c s g)" by (rule store_holder_ok)
  then show ?case by (simp add: call Cons.IH)
qed

lemma store_all_append:
  "store_all g bs (calls @ later) = store_all g (store_all g bs calls) later"
  by (induction calls arbitrary: bs) auto

text \<open>
  C3. \<open>store\<close> replaces the stored solution exactly when the offered score is
  strictly lower than the stored score and the candidate has at most \<open>goal\<close>
  members, and otherwise leaves the holder as it is. So after every sequence of
  \<open>store\<close> calls on a new holder, a stored solution has at most \<open>goal\<close> members,
  and the stored score after any further calls is at most the score before them.
\<close>

theorem store_respects_cap_and_never_regresses:
  "store bs c s goal =
     (if s < score_of bs \<and> int (length c) \<le> goal
      then \<lparr> solution_of = Some c, score_of = s \<rparr> else bs) \<and>
   (\<forall>sol. solution_of (store_all goal BestSolution_init calls) = Some sol \<longrightarrow>
          int (length sol) \<le> goal) \<and>
   score_of (store_all goal BestSolution_init (calls @ later)) \<le>
     score_of (store_all goal BestSolution_init calls) \<and>
   score_of (store_all goal bs calls) \<le> score_of bs"
proof (intro conjI)
  show "store bs c s goal =
     (if s < score_of bs \<and> int (length c) \<le> goal
      then \<lparr> solution_of = Some c, score_of = s \<rparr> else bs)"
    by (simp add: store_def)
  have "holder_ok goal BestSolution_init"
    by (simp add: holder_ok_def BestSolution_init_def)
  then have "holder_ok goal (store_all goal BestSolution_init calls)"
    by (rule store_all_holder_ok)
  then show "\<forall>sol. solution_of (store_all goal BestSolution_init calls) = Some sol \<longrightarrow>
          int (length sol) \<le> goal"
    by (auto simp: holder_ok_def)
  show "score_of (store_all goal BestSolution_init (calls @ later)) \<le>
     score_of (store_all goal BestSolution_init calls)"
    by (simp add: store_all_append store_all_score_le)
  show "score_of (store_all goal bs calls) \<le> score_of bs"
    by (rule store_all_score_le)
qed

theorem store_respects_cap_and_never_regresses_witness:
  "solution_of (store_all 2 BestSolution_init
      [([make_rectangle 0 0 0 0, make_rectangle 0 2 0 2, make_rectangle 5 5 5 5], 33),
       ([make_rectangle 0 0 0 2, make_rectangle 5 5 5 5], 24),
       ([make_rectangle 0 0 5 5], 46)]) =
     Some [make_rectangle 0 0 0 2, make_rectangle 5 5 5 5] \<and>
   int (length [make_rectangle 0 0 0 2, make_rectangle 5 5 5 5]) \<le> 2 \<and>
   score_of (store_all 2 BestSolution_init
      [([make_rectangle 0 0 0 0, make_rectangle 0 2 0 2, make_rectangle 5 5 5 5], 33),
       ([make_rectangle 0 0 0 2, make_rectangle 5 5 5 5], 24),
       ([make_rectangle 0 0 5 5], 46)]) = 24"
  using store_respects_cap_and_never_regresses
    [of BestSolution_init "[]" 0 2
        "[([make_rectangle 0 0 0 0, make_rectangle 0 2 0 2, make_rectangle 5 5 5 5], 33),
          ([make_rectangle 0 0 0 2, make_rectangle 5 5 5 5], 24),
          ([make_rectangle 0 0 5 5], 46)]" "[]"]
  by (simp add: store_def BestSolution_init_def maxsize_def)

section \<open>Properties of the field\<close>

lemma fold_min_eq: "fold min xs (a::int) = Min (insert a (set xs))"
  using Min.set_eq_fold [of a xs] by simp

lemma fold_max_eq: "fold max xs (a::int) = Max (insert a (set xs))"
  using Max.set_eq_fold [of a xs] by simp

lemma fold_min_le: "fold min xs (a::int) \<le> a" "x \<in> set xs \<Longrightarrow> fold min xs a \<le> x"
  by (simp_all add: fold_min_eq)

lemma fold_max_ge: "a \<le> fold max xs (a::int)" "x \<in> set xs \<Longrightarrow> x \<le> fold max xs a"
  by (simp_all add: fold_max_eq)

lemma fold_min_attained: "fold min xs (a::int) = a \<or> fold min xs a \<in> set xs"
proof -
  have "Min (insert a (set xs)) \<in> insert a (set xs)" by (rule Min_in) simp_all
  then show ?thesis by (auto simp: fold_min_eq)
qed

lemma fold_max_attained: "fold max xs (a::int) = a \<or> fold max xs a \<in> set xs"
proof -
  have "Max (insert a (set xs)) \<in> insert a (set xs)" by (rule Max_in) simp_all
  then show ?thesis by (auto simp: fold_max_eq)
qed

lemma contains_iff:
  "contains R q \<longleftrightarrow>
     top_of R \<le> fst q \<and> fst q \<le> bottom_of R \<and> left_of R \<le> snd q \<and> snd q \<le> right_of R"
  by (cases q) simp

lemma bounding_box_bounds:
  "top_of (bounding_box p ps) = fold min (map fst ps) (fst p)"
  "left_of (bounding_box p ps) = fold min (map snd ps) (snd p)"
  "bottom_of (bounding_box p ps) = fold max (map fst ps) (fst p)"
  "right_of (bounding_box p ps) = fold max (map snd ps) (snd p)"
  by (simp_all add: bounding_box_def make_rectangle_def Let_def)

lemma bounding_box_contains:
  assumes "q \<in> set (p # ps)"
  shows "contains (bounding_box p ps) q"
proof -
  obtain r c where q: "q = (r, c)" by (cases q)
  have "fold min (map fst ps) (fst p) \<le> r" "r \<le> fold max (map fst ps) (fst p)"
       "fold min (map snd ps) (snd p) \<le> c" "c \<le> fold max (map snd ps) (snd p)"
    using assms q fold_min_le [where xs = "map fst ps" and a = "fst p"]
          fold_max_ge [where xs = "map fst ps" and a = "fst p"]
          fold_min_le [where xs = "map snd ps" and a = "snd p"]
          fold_max_ge [where xs = "map snd ps" and a = "snd p"]
    by force+
  then show ?thesis by (simp add: q bounding_box_bounds)
qed

lemma fold_min_map_attained:
  "\<exists>q\<in>set (p # ps). h q = fold min (map h ps) ((h p)::int)"
  using fold_min_attained [of "map h ps" "h p"] by auto

lemma fold_max_map_attained:
  "\<exists>q\<in>set (p # ps). h q = fold max (map h ps) ((h p)::int)"
  using fold_max_attained [of "map h ps" "h p"] by auto

lemma bounding_box_attained:
  "\<exists>q\<in>set (p # ps). fst q = top_of (bounding_box p ps)"
  "\<exists>q\<in>set (p # ps). snd q = left_of (bounding_box p ps)"
  "\<exists>q\<in>set (p # ps). fst q = bottom_of (bounding_box p ps)"
  "\<exists>q\<in>set (p # ps). snd q = right_of (bounding_box p ps)"
  unfolding bounding_box_bounds
  by (rule fold_min_map_attained fold_max_map_attained)+




lemma add_row_scan_result:
  "add_row_scan es f rbuf = (f', rbuf') \<Longrightarrow>
     rows f' = rows f \<and> num_rows f' = num_rows f \<and> num_cols f' = num_cols f \<and>
     maximum_greenhouses f' = maximum_greenhouses f \<and> root_region f' = root_region f \<and>
     rbuf' = rbuf @ map (Pair (num_rows f)) (berry_cols es) \<and>
     top_f f' = fold min (map (\<lambda>c. num_rows f) (berry_cols es)) (top_f f) \<and>
     left_f f' = fold min (berry_cols es) (left_f f) \<and>
     bottom_f f' = fold max (map (\<lambda>c. num_rows f) (berry_cols es)) (bottom_f f) \<and>
     right_f f' = fold max (berry_cols es) (right_f f)"
proof (induction es f rbuf rule: add_row_scan.induct)
  case (1 f rbuf)
  then show ?case by (simp add: berry_cols_def)
next
  case (2 idx elem es f rbuf)
  show ?case
  proof (cases "elem = CHR ''@''")
    case True
    with "2.prems" "2.IH"(1) show ?thesis
      by (simp add: berry_cols_def min.commute max.commute)
  next
    case False
    with "2.prems" "2.IH"(2) show ?thesis
      by (simp add: berry_cols_def)
  qed
qed

lemma berry_cols_enumerate:
  "set (berry_cols (enumerate_py row)) \<subseteq> {0 ..< int (length row)}"
  "distinct (berry_cols (enumerate_py row))"
proof -
  have d: "distinct (map fst (enumerate_py row))"
    by (simp add: enumerate_py_def distinct_map inj_on_def)
  show "distinct (berry_cols (enumerate_py row))"
    unfolding berry_cols_def using d by (rule distinct_map_filter)
  have "set (map fst (enumerate_py row)) \<subseteq> {0 ..< int (length row)}"
    by (auto simp: enumerate_py_def)
  then show "set (berry_cols (enumerate_py row)) \<subseteq> {0 ..< int (length row)}"
    unfolding berry_cols_def by auto
qed

lemma add_row_result:
  "rows (add_row f row) = rows f @ [map (Pair (num_rows f)) (berry_cols (enumerate_py row))]"
  "num_rows (add_row f row) = num_rows f + 1"
  "num_cols (add_row f row) = max (num_cols f) (int (length row))"
  "maximum_greenhouses (add_row f row) = maximum_greenhouses f"
  "top_f (add_row f row) =
     fold min (map (\<lambda>c. num_rows f) (berry_cols (enumerate_py row))) (top_f f)"
  "left_f (add_row f row) = fold min (berry_cols (enumerate_py row)) (left_f f)"
  "bottom_f (add_row f row) =
     fold max (map (\<lambda>c. num_rows f) (berry_cols (enumerate_py row))) (bottom_f f)"
  "right_f (add_row f row) = fold max (berry_cols (enumerate_py row)) (right_f f)"
proof -
  obtain f' rbuf' where sc: "add_row_scan (enumerate_py row) f [] = (f', rbuf')"
    by (cases "add_row_scan (enumerate_py row) f []")
  note r = add_row_scan_result [OF sc]
  have ar: "add_row f row =
      f' \<lparr> rows := rows f' @ [rbuf'],
            num_cols := (if num_cols f' < int (length row) then int (length row) else num_cols f'),
            num_rows := num_rows f' + 1 \<rparr>"
    by (simp add: add_row_def sc)
  show "rows (add_row f row) = rows f @ [map (Pair (num_rows f)) (berry_cols (enumerate_py row))]"
    "num_rows (add_row f row) = num_rows f + 1"
    "num_cols (add_row f row) = max (num_cols f) (int (length row))"
    "maximum_greenhouses (add_row f row) = maximum_greenhouses f"
    "top_f (add_row f row) =
       fold min (map (\<lambda>c. num_rows f) (berry_cols (enumerate_py row))) (top_f f)"
    "left_f (add_row f row) = fold min (berry_cols (enumerate_py row)) (left_f f)"
    "bottom_f (add_row f row) =
       fold max (map (\<lambda>c. num_rows f) (berry_cols (enumerate_py row))) (bottom_f f)"
    "right_f (add_row f row) = fold max (berry_cols (enumerate_py row)) (right_f f)"
    using r by (simp_all add: ar max_def)
qed

lemma field_ok_init: "field_ok (field_init n)"
  by (simp add: field_ok_def field_init_def occupied_def maxsize_def)


lemma field_ok_add_row:
  assumes ok: "field_ok f"
  shows "field_ok (add_row f row)"
proof -
  define cols where "cols = berry_cols (enumerate_py row)"
  define nr where "nr = num_rows f"
  define new where "new = map (Pair nr) cols"
  define f2 where "f2 = add_row f row"
  note res = add_row_result [of f row, folded cols_def nr_def f2_def]
  have rows2: "rows f2 = rows f @ [new]" using res(1) by (simp add: new_def)
  have nr_len: "nr = int (length (rows f))" using ok by (simp add: field_ok_def nr_def)
  have cols_rng: "\<And>c. c \<in> set cols \<Longrightarrow> 0 \<le> c \<and> c < int (length row)"
    using berry_cols_enumerate(1) [of row] by (auto simp: cols_def)
  have cols_dist: "distinct cols" using berry_cols_enumerate(2) [of row] by (simp add: cols_def)
  have new_pts: "\<And>b. b \<in> set new \<Longrightarrow> fst b = nr \<and> snd b \<in> set cols"
    by (auto simp: new_def)
  have occ2: "occupied f2 = occupied f \<union> set new"
    by (simp add: occupied_def rows2)
  have old_rows: "\<And>b. b \<in> occupied f \<Longrightarrow> 0 \<le> fst b \<and> fst b < nr \<and> 0 \<le> snd b \<and> snd b < num_cols f"
  proof -
    fix b assume "b \<in> occupied f"
    then obtain r where "r \<in> set (rows f)" "b \<in> set r" by (auto simp: occupied_def)
    then obtain i where "i < length (rows f)" "rows f ! i = r" by (auto simp: in_set_conv_nth)
    with ok \<open>b \<in> set r\<close> show "0 \<le> fst b \<and> fst b < nr \<and> 0 \<le> snd b \<and> snd b < num_cols f"
      by (auto simp: field_ok_def nr_len)
  qed
  have c1: "num_rows f2 = int (length (rows f2))"
    using res(2) by (simp add: rows2 nr_len)
  have c2: "0 \<le> num_cols f2" using res(3) ok by (simp add: field_ok_def max_def)
  have c3: "\<forall>i<length (rows f2). \<forall>b\<in>set (rows f2 ! i).
         fst b = int i \<and> 0 \<le> snd b \<and> snd b < num_cols f2"
  proof (intro allI impI ballI)
    fix i b assume i: "i < length (rows f2)" and b: "b \<in> set (rows f2 ! i)"
    show "fst b = int i \<and> 0 \<le> snd b \<and> snd b < num_cols f2"
    proof (cases "i < length (rows f)")
      case True
      then have "rows f2 ! i = rows f ! i" by (simp add: rows2 nth_append)
      with ok True b have "fst b = int i \<and> 0 \<le> snd b \<and> snd b < num_cols f"
        by (simp add: field_ok_def)
      then show ?thesis using res(3) by (simp add: max_def)
    next
      case False
      with i have ieq: "i = length (rows f)" by (simp add: rows2)
      then have "rows f2 ! i = new" by (simp add: rows2)
      with b have "fst b = nr" "snd b \<in> set cols" using new_pts by auto
      then show ?thesis using cols_rng [of "snd b"] res(3) ieq nr_len by (simp add: max_def)
    qed
  qed
  have c4: "distinct (concat (rows f2))"
  proof -
    have "distinct new" using cols_dist by (simp add: new_def distinct_map inj_on_def)
    moreover have "set (concat (rows f)) \<inter> set new = {}"
      using old_rows new_pts by (fastforce simp: occupied_def)
    moreover have "distinct (concat (rows f))" using ok by (simp add: field_ok_def)
    ultimately show ?thesis by (simp add: rows2)
  qed
  have rowvals: "set (map (\<lambda>c. nr) cols) \<subseteq> {nr}" by auto
  have top_cases: "top_f f2 = top_f f \<or> (top_f f2 = nr \<and> cols \<noteq> [])"
    using fold_min_attained [of "map (\<lambda>c. nr) cols" "top_f f"] res(5) by auto
  have bot_cases: "bottom_f f2 = bottom_f f \<or> (bottom_f f2 = nr \<and> cols \<noteq> [])"
    using fold_max_attained [of "map (\<lambda>c. nr) cols" "bottom_f f"] res(7) by auto
  have left_cases: "left_f f2 = left_f f \<or> left_f f2 \<in> set cols"
    using fold_min_attained [of cols "left_f f"] res(6) by simp
  have right_cases: "right_f f2 = right_f f \<or> right_f f2 \<in> set cols"
    using fold_max_attained [of cols "right_f f"] res(8) by simp
  have top_le: "top_f f2 \<le> top_f f" "cols \<noteq> [] \<Longrightarrow> top_f f2 \<le> nr"
    using fold_min_le(1) [of "map (\<lambda>c. nr) cols" "top_f f"]
          fold_min_le(2) [of nr "map (\<lambda>c. nr) cols" "top_f f"] res(5)
    by (cases cols; simp)+
  have bot_ge: "bottom_f f \<le> bottom_f f2" "cols \<noteq> [] \<Longrightarrow> nr \<le> bottom_f f2"
    using fold_max_ge(1) [of "bottom_f f" "map (\<lambda>c. nr) cols"]
          fold_max_ge(2) [of nr "map (\<lambda>c. nr) cols" "bottom_f f"] res(7)
    by (cases cols; simp)+
  have left_le: "left_f f2 \<le> left_f f" "\<And>c. c \<in> set cols \<Longrightarrow> left_f f2 \<le> c"
    using fold_min_le [where xs = cols and a = "left_f f"] res(6) by simp_all
  have right_ge: "right_f f \<le> right_f f2" "\<And>c. c \<in> set cols \<Longrightarrow> c \<le> right_f f2"
    using fold_max_ge [where xs = cols and a = "right_f f"] res(8) by simp_all
  have old_bounds: "\<And>b. b \<in> occupied f \<Longrightarrow> top_f f \<le> fst b \<and> fst b \<le> bottom_f f \<and>
                       left_f f \<le> snd b \<and> snd b \<le> right_f f"
    using ok by (simp add: field_ok_def)
  have c5: "\<forall>b\<in>occupied f2. top_f f2 \<le> fst b \<and> fst b \<le> bottom_f f2 \<and>
                       left_f f2 \<le> snd b \<and> snd b \<le> right_f f2"
  proof
    fix b assume "b \<in> occupied f2"
    then consider (old) "b \<in> occupied f" | (new) "b \<in> set new" using occ2 by auto
    then show "top_f f2 \<le> fst b \<and> fst b \<le> bottom_f f2 \<and> left_f f2 \<le> snd b \<and> snd b \<le> right_f f2"
    proof cases
      case old
      then show ?thesis using old_bounds [of b] top_le(1) bot_ge(1) left_le(1) right_ge(1) by simp
    next
      case new
      then have "fst b = nr" "snd b \<in> set cols" using new_pts by auto
      moreover from this have "cols \<noteq> []" by auto
      ultimately show ?thesis using top_le(2) bot_ge(2) left_le(2) right_ge(2) by simp
    qed
  qed
  have nr0: "0 \<le> nr" by (simp add: nr_len)
  have c6: "0 \<le> top_f f2" using top_cases ok nr0 by (auto simp: field_ok_def)
  have c7: "bottom_f f2 < num_rows f2"
    using bot_cases ok res(2) by (auto simp: field_ok_def nr_def)
  have new_ex: "cols \<noteq> [] \<Longrightarrow> \<exists>b\<in>set new. fst b = nr"
    by (cases cols) (auto simp: new_def)
  have col_ex: "\<And>c. c \<in> set cols \<Longrightarrow> \<exists>b\<in>set new. snd b = c"
    by (auto simp: new_def)
  have o8: "top_f f = maxsize \<or> (\<exists>b\<in>occupied f. fst b = top_f f)"
    and o9: "left_f f = maxsize \<or> (\<exists>b\<in>occupied f. snd b = left_f f)"
    and o10: "bottom_f f = - 1 \<or> (\<exists>b\<in>occupied f. fst b = bottom_f f)"
    and o11: "right_f f = - 1 \<or> (\<exists>b\<in>occupied f. snd b = right_f f)"
    using ok by (simp_all add: field_ok_def)
  have c8: "top_f f2 = maxsize \<or> (\<exists>b\<in>occupied f2. fst b = top_f f2)"
    using top_cases o8 new_ex unfolding occ2 by (metis UnCI)
  have c9: "left_f f2 = maxsize \<or> (\<exists>b\<in>occupied f2. snd b = left_f f2)"
    using left_cases o9 col_ex unfolding occ2 by (metis UnCI)
  have c10: "bottom_f f2 = - 1 \<or> (\<exists>b\<in>occupied f2. fst b = bottom_f f2)"
    using bot_cases o10 new_ex unfolding occ2 by (metis UnCI)
  have c11: "right_f f2 = - 1 \<or> (\<exists>b\<in>occupied f2. snd b = right_f f2)"
    using right_cases o11 col_ex unfolding occ2 by (metis UnCI)
  from c1 c2 c3 c4 c5 c6 c7 c8 c9 c10 c11 show ?thesis
    unfolding field_ok_def f2_def [symmetric] by blast
qed

lemma field_ok_add_rows: "field_ok f \<Longrightarrow> field_ok (add_rows f data_rows)"
  unfolding add_rows_def
  by (induction data_rows arbitrary: f) (simp_all add: field_ok_add_row)

lemma field_ok_StrawberryField: "field_ok (StrawberryField n data_rows)"
proof -
  have "field_ok (add_rows (field_init n) data_rows)"
    by (rule field_ok_add_rows) (rule field_ok_init)
  then show ?thesis
    by (simp add: StrawberryField_def Let_def field_ok_def occupied_def)
qed

lemma root_region_StrawberryField:
  "f = StrawberryField n data_rows \<Longrightarrow>
   root_region f = make_rectangle (top_f f) (left_f f) (bottom_f f) (right_f f)"
  by (simp add: StrawberryField_def Let_def)


lemma py_index_in_range:
  "0 \<le> i \<Longrightarrow> i < int (length xs) \<Longrightarrow> py_index xs i = Inr (xs ! nat i)"
  by (simp add: py_index_def)

lemma berries_loop_in_range:
  assumes "\<forall>i\<in>set is. 0 \<le> i \<and> i < int (length (rows f))"
  shows "berries_loop f rect is acc =
           Inr (acc @ concat (map (\<lambda>i. filter (contains rect) (rows f ! nat i)) is))"
  using assms by (induction "is" arbitrary: acc) (simp_all add: py_index_in_range)

lemma get_berries_in_grid:
  assumes ok: "field_ok f" and t: "0 \<le> top_of rect" and b: "bottom_of rect < num_rows f"
  shows "\<exists>bs. get_berries_in_rectangle f rect = Inr bs \<and>
              set bs = {p \<in> occupied f. contains rect p}"
proof -
  define bs where
    "bs = concat (map (\<lambda>i. filter (contains rect) (rows f ! nat i)) [top_of rect .. bottom_of rect])"
  have len: "num_rows f = int (length (rows f))" using ok by (simp add: field_ok_def)
  have "\<forall>i\<in>set [top_of rect .. bottom_of rect]. 0 \<le> i \<and> i < int (length (rows f))"
    using t b len by auto
  then have eq: "get_berries_in_rectangle f rect = Inr bs"
    by (simp add: get_berries_in_rectangle_def berries_loop_in_range bs_def)
  have "set bs = {p \<in> occupied f. contains rect p}"
  proof (intro equalityI subsetI)
    fix p assume "p \<in> set bs"
    then obtain i where i: "top_of rect \<le> i" "i \<le> bottom_of rect"
      and p: "p \<in> set (rows f ! nat i)" "contains rect p"
      by (auto simp: bs_def)
    have "nat i < length (rows f)" using i t b len by simp
    then have "rows f ! nat i \<in> set (rows f)" by simp
    with p show "p \<in> {p \<in> occupied f. contains rect p}" by (auto simp: occupied_def)
  next
    fix p assume "p \<in> {p \<in> occupied f. contains rect p}"
    then have occ: "p \<in> occupied f" and c: "contains rect p" by simp_all
    from occ obtain r where "r \<in> set (rows f)" "p \<in> set r" by (auto simp: occupied_def)
    then obtain k where k: "k < length (rows f)" "p \<in> set (rows f ! k)"
      by (auto simp: in_set_conv_nth)
    with ok have "fst p = int k" by (simp add: field_ok_def)
    with c have "top_of rect \<le> int k" "int k \<le> bottom_of rect" by (simp_all add: contains_iff)
    then have "int k \<in> set [top_of rect .. bottom_of rect]" by simp
    moreover have "p \<in> set (filter (contains rect) (rows f ! nat (int k)))" using k c by simp
    ultimately show "p \<in> set bs" unfolding bs_def by (simp only: set_concat set_map) blast
  qed
  with eq show ?thesis by blast
qed

lemma root_region_berries:
  assumes f: "f = StrawberryField n data_rows"
  shows "\<exists>bs. get_berries_in_rectangle f (root_region f) = Inr bs \<and> set bs = occupied f"
proof -
  have ok: "field_ok f" using f by (simp add: field_ok_StrawberryField)
  have rr: "root_region f = make_rectangle (top_f f) (left_f f) (bottom_f f) (right_f f)"
    using f by (rule root_region_StrawberryField)
  have "0 \<le> top_of (root_region f)" "bottom_of (root_region f) < num_rows f"
    using ok by (simp_all add: rr make_rectangle_def Let_def field_ok_def)
  then obtain bs where bs: "get_berries_in_rectangle f (root_region f) = Inr bs"
    "set bs = {p \<in> occupied f. contains (root_region f) p}"
    using get_berries_in_grid [OF ok] by blast
  have "\<forall>p\<in>occupied f. contains (root_region f) p"
    using ok by (simp add: rr make_rectangle_def Let_def field_ok_def contains_iff)
  with bs show ?thesis by auto
qed




section \<open>The locality test\<close>

lemma count_overlaps_eq:
  "n \<le> 2 \<Longrightarrow> count_overlaps m gl n = min 3 (n + length (filter (overlaps m) gl))"
  by (induction gl arbitrary: n) auto

lemma count_overlaps_two:
  "count_overlaps m gl 0 = 2 \<longleftrightarrow> length (filter (overlaps m) gl) = 2"
  by (simp add: count_overlaps_eq min_def)

lemma overlaps_merge_left: "proper h1 \<Longrightarrow> overlaps (merge h1 h2) h1"
  by (auto simp: overlaps_def proper_def merge_bounds)

lemma overlaps_merge_right: "proper h2 \<Longrightarrow> overlaps (merge h1 h2) h2"
  by (auto simp: overlaps_def proper_def merge_bounds)

lemma exactly_two_positions:
  assumes i: "i < length gl" and j: "j < length gl" and ij: "i \<noteq> j"
    and pi: "P (gl ! i)" and pj: "P (gl ! j)"
  shows "length (filter P gl) = 2 \<longleftrightarrow> (\<forall>k<length gl. P (gl ! k) \<longrightarrow> k = i \<or> k = j)"
proof -
  let ?S = "{k. k < length gl \<and> P (gl ! k)}"
  have len: "length (filter P gl) = card ?S" by (rule length_filter_conv_card)
  have sub: "{i, j} \<subseteq> ?S" using i j pi pj by simp
  have fin: "finite ?S" by simp
  have c2: "card {i, j} = 2" using ij by simp
  show ?thesis
  proof
    assume "length (filter P gl) = 2"
    then have "card ?S = card {i, j}" using len c2 by simp
    then have "{i, j} = ?S" using sub fin by (metis card_subset_eq)
    then show "\<forall>k<length gl. P (gl ! k) \<longrightarrow> k = i \<or> k = j" by blast
  next
    assume "\<forall>k<length gl. P (gl ! k) \<longrightarrow> k = i \<or> k = j"
    then have "?S = {i, j}" using sub by blast
    then show "length (filter P gl) = 2" using len c2 by simp
  qed
qed

section \<open>Shuffling, pairs and permutations\<close>

lemma randbelow_less: "0 < k \<Longrightarrow> fst (randbelow k g) < k"
  by (cases g) simp_all

lemma shuffle_from_mset: "i < length x \<Longrightarrow> mset (fst (shuffle_from i x g)) = mset x"
proof (induction i arbitrary: x g)
  case 0
  show ?case by simp
next
  case (Suc i)
  obtain j g' where r: "randbelow (Suc i + 1) g = (j, g')" by (cases "randbelow (Suc i + 1) g")
  have "j < Suc i + 1" using randbelow_less [of "Suc i + 1" g] r by simp
  with Suc.prems have j: "j < length x" by simp
  have sw: "mset (x[Suc i := x ! j, j := x ! Suc i]) = mset x"
    using Suc.prems j by (simp add: mset_swap)
  have "i < length (x[Suc i := x ! j, j := x ! Suc i])" using Suc.prems by simp
  then have "mset (fst (shuffle_from i (x[Suc i := x ! j, j := x ! Suc i]) g')) = mset x"
    using Suc.IH sw by simp
  then show ?case using r by simp
qed

lemma shuffle_mset: "mset (fst (shuffle x g)) = mset x"
proof (cases x)
  case Nil
  then show ?thesis by (simp add: shuffle_def)
next
  case (Cons a as)
  then show ?thesis unfolding shuffle_def by (intro shuffle_from_mset) simp
qed

lemma shuffle_props:
  assumes "shuffle x g = (y, g')"
  shows "mset y = mset x" "set y = set x" "length y = length x" "distinct y = distinct x"
proof -
  show m: "mset y = mset x" using shuffle_mset [of x g] assms by simp
  show "set y = set x" using m by (rule mset_eq_setD)
  show "length y = length x" using m by (rule mset_eq_length)
  show "distinct y = distinct x" using m by (rule mset_eq_imp_distinct_iff)
qed

lemma combinations2_sound:
  "(a, b) \<in> set (combinations2 xs) \<Longrightarrow> a \<in> set xs \<and> b \<in> set (remove1 a xs)"
proof (induction xs)
  case Nil
  then show ?case by simp
next
  case (Cons x xs)
  from Cons.prems consider (hd) "a = x" "b \<in> set xs" | (tl) "(a, b) \<in> set (combinations2 xs)"
    by auto
  then show ?case
  proof cases
    case hd
    then show ?thesis by simp
  next
    case tl
    then have ih: "a \<in> set xs" "b \<in> set (remove1 a xs)" using Cons.IH by simp_all
    then have "b \<in> set xs" by (metis notin_set_remove1)
    with ih show ?thesis by simp
  qed
qed

lemma combinations2_complete:
  "a \<in> set xs \<Longrightarrow> b \<in> set (remove1 a xs) \<Longrightarrow>
   (a, b) \<in> set (combinations2 xs) \<or> (b, a) \<in> set (combinations2 xs)"
proof (induction xs)
  case Nil
  then show ?case by simp
next
  case (Cons x xs)
  show ?case
  proof (cases "a = x")
    case True
    with Cons.prems show ?thesis by auto
  next
    case False
    with Cons.prems have a: "a \<in> set xs" and b: "b = x \<or> b \<in> set (remove1 a xs)" by auto
    from b show ?thesis
    proof
      assume "b = x"
      with a show ?thesis by auto
    next
      assume "b \<in> set (remove1 a xs)"
      with a Cons.IH show ?thesis by auto
    qed
  qed
qed

lemma pair_as_mset:
  "a \<in> set P \<and> b \<in> set (remove1 a P) \<longleftrightarrow> {#a, b#} \<subseteq># mset P"
proof -
  have "{#a, b#} \<subseteq># mset P \<longleftrightarrow> a \<in># mset P \<and> {#b#} \<subseteq># mset P - {#a#}"
    by (rule insert_subset_eq_iff)
  also have "\<dots> \<longleftrightarrow> a \<in> set P \<and> b \<in> set (remove1 a P)"
    by (simp flip: mset_remove1)
  finally show ?thesis by simp
qed

lemma count_overlaps_perm:
  assumes "mset P = mset Q"
  shows "count_overlaps m P 0 = 2 \<longleftrightarrow> count_overlaps m Q 0 = 2"
proof -
  have "mset (filter (overlaps m) P) = mset (filter (overlaps m) Q)"
    using assms by (metis mset_filter)
  then have "length (filter (overlaps m) P) = length (filter (overlaps m) Q)"
    by (rule mset_eq_length)
  then show ?thesis by (simp add: count_overlaps_two)
qed

lemma valid_merge_perm:
  assumes "mset P = mset Q"
  shows "valid_merge P a b = valid_merge Q a b"
proof -
  have "(a \<in> set P \<and> b \<in> set (remove1 a P)) = (a \<in> set Q \<and> b \<in> set (remove1 a Q))"
    using assms by (simp only: pair_as_mset)
  moreover have "(count_overlaps (merge_rectangles a b) P 0 = 2) =
                 (count_overlaps (merge_rectangles a b) Q 0 = 2)"
    using assms by (rule count_overlaps_perm)
  ultimately show ?thesis unfolding valid_merge_def by blast
qed

lemma merge_rectangles_commute: "merge_rectangles a b = merge_rectangles b a"
  by (simp add: merge_rectangles_def merge_as_make_rectangle min.commute max.commute)

lemma valid_merge_sym: "valid_merge P a b = valid_merge P b a"
proof -
  have "{#a, b#} = {#b, a#}" by (simp add: add_mset_commute)
  then have "(a \<in> set P \<and> b \<in> set (remove1 a P)) = (b \<in> set P \<and> a \<in> set (remove1 b P))"
    by (simp only: pair_as_mset)
  then show ?thesis
    unfolding valid_merge_def merge_rectangles_commute [of a b] by blast
qed

lemma incremental_score_sym: "incremental_score s a b = incremental_score s b a"
  by (simp add: incremental_score_def merge_rectangles_commute [of a b])

lemma mset_successor_of:
  "mset (successor_of P a b) = mset P - {#a#} - {#b#} + {#merge_rectangles a b#}"
  by (simp add: successor_of_def)

lemma successor_of_perm:
  "mset P = mset Q \<Longrightarrow> set (successor_of P a b) = set (successor_of Q a b)"
  using mset_successor_of [of P a b] mset_successor_of [of Q a b] by (metis mset_eq_setD)

lemma successor_of_sym: "set (successor_of P a b) = set (successor_of P b a)"
proof -
  have "mset (successor_of P a b) = mset (successor_of P b a)"
    by (simp add: mset_successor_of merge_rectangles_commute [of a b] add_mset_commute [of a b])
  then show ?thesis by (rule mset_eq_setD)
qed

lemma get_score_perm: "mset P = mset Q \<Longrightarrow> get_score P = get_score Q"
proof -
  assume "mset P = mset Q"
  then have "mset (map cost_of P) = mset (map cost_of Q)" by simp
  then have "sum_mset (mset (map cost_of P)) = sum_mset (mset (map cost_of Q))" by simp
  then show ?thesis by (simp only: sum_mset_sum_list get_score_def)
qed

lemma length_successor_of:
  assumes "a \<in> set P" "b \<in> set (remove1 a P)"
  shows "length (successor_of P a b) < length P"
proof -
  have "length (remove1 a P) = length P - 1" using assms(1) by (simp add: length_remove1)
  moreover have "length (remove1 b (remove1 a P)) = length (remove1 a P) - 1"
    using assms(2) by (simp add: length_remove1)
  moreover have "0 < length (remove1 a P)" using assms(2) by (cases "remove1 a P") auto
  ultimately show ?thesis by (simp add: successor_of_def)
qed

section \<open>The loops of a round\<close>

lemma same_members_iff: "same_members s t \<longleftrightarrow> set s = set t"
  by (auto simp: same_members_def)

lemma set_add_cases:
  "(set_add s ss = ss \<and> (\<exists>t\<in>set ss. set t = set s)) \<or>
   (set_add s ss = ss @ [s] \<and> (\<forall>t\<in>set ss. set t \<noteq> set s))"
  by (auto simp: set_add_def list_ex_iff same_members_iff)

lemma set_add_length: "length (set_add s ss) \<le> length ss + 1"
  using set_add_cases [of s ss] by auto

lemma set_add_members: "set (set_add s ss) \<subseteq> insert s (set ss)"
  using set_add_cases [of s ss] by auto

lemma set_add_distinct: "distinct (map set ss) \<Longrightarrow> distinct (map set (set_add s ss))"
  using set_add_cases [of s ss] by fastforce

lemma make_successor_Inr:
  "make_successor gl h1 h2 = Inr S \<longleftrightarrow>
     h1 \<in> set gl \<and> h2 \<in> set (remove1 h1 gl) \<and> S = successor_of gl h1 h2"
  by (auto simp: make_successor_def py_remove_def successor_of_def)

lemma make_successor_Inl:
  "make_successor gl h1 h2 = Inl e \<Longrightarrow> \<not> (h1 \<in> set gl \<and> h2 \<in> set (remove1 h1 gl))"
  by (auto simp: make_successor_def py_remove_def split: if_splits)

lemma pair_loop_step:
  "pair_loop gl base ((h1, h2) # ps) (best, succs) =
     (if count_overlaps (merge_rectangles h1 h2) gl 0 \<noteq> 2 then pair_loop gl base ps (best, succs)
      else (case make_successor gl h1 h2 of
              Inl e \<Rightarrow> Inl e
            | Inr S \<Rightarrow>
                if incremental_score base h1 h2 < best
                then pair_loop gl base ps (incremental_score base h1 h2, [frozenset S])
                else if incremental_score base h1 h2 = best
                then (if MAX_SUCCESSORS \<le> length (set_add (frozenset S) succs)
                      then Inr (best, set_add (frozenset S) succs)
                      else pair_loop gl base ps (best, set_add (frozenset S) succs))
                else pair_loop gl base ps (best, succs)))"
  by (simp add: Let_def split: sum.splits)

text \<open>The five outcomes of one step, as a case rule.\<close>

lemma pair_loop_step_cases:
  assumes "pair_loop gl base ((h1, h2) # ps) (best, succs) = Inr r"
  obtains
    (skip) "\<not> valid_merge gl h1 h2" "pair_loop gl base ps (best, succs) = Inr r"
  | (better) "valid_merge gl h1 h2" "incremental_score base h1 h2 < best"
      "pair_loop gl base ps (incremental_score base h1 h2, [frozenset (successor_of gl h1 h2)]) = Inr r"
  | (full) "valid_merge gl h1 h2" "incremental_score base h1 h2 = best"
      "MAX_SUCCESSORS \<le> length (set_add (frozenset (successor_of gl h1 h2)) succs)"
      "r = (best, set_add (frozenset (successor_of gl h1 h2)) succs)"
  | (equal) "valid_merge gl h1 h2" "incremental_score base h1 h2 = best"
      "length (set_add (frozenset (successor_of gl h1 h2)) succs) < MAX_SUCCESSORS"
      "pair_loop gl base ps (best, set_add (frozenset (successor_of gl h1 h2)) succs) = Inr r"
  | (worse) "valid_merge gl h1 h2" "best < incremental_score base h1 h2"
      "pair_loop gl base ps (best, succs) = Inr r"
proof (cases "count_overlaps (merge_rectangles h1 h2) gl 0 = 2")
  case False
  then have "\<not> valid_merge gl h1 h2" by (simp add: valid_merge_def)
  moreover have "pair_loop gl base ps (best, succs) = Inr r"
    using assms False by (simp add: pair_loop_step)
  ultimately show ?thesis by (rule skip)
next
  case True
  show ?thesis
  proof (cases "make_successor gl h1 h2")
    case (Inl e)
    with assms True show ?thesis by (simp add: pair_loop_step)
  next
    case (Inr S)
    then have v: "valid_merge gl h1 h2" and S: "S = successor_of gl h1 h2"
      using True by (simp_all add: make_successor_Inr valid_merge_def)
    consider "incremental_score base h1 h2 < best"
      | "incremental_score base h1 h2 = best"
        "MAX_SUCCESSORS \<le> length (set_add (frozenset (successor_of gl h1 h2)) succs)"
      | "incremental_score base h1 h2 = best"
        "length (set_add (frozenset (successor_of gl h1 h2)) succs) < MAX_SUCCESSORS"
      | "best < incremental_score base h1 h2"
      by linarith
    then show ?thesis
    proof cases
      case 1
      with assms True Inr S have
        "pair_loop gl base ps (incremental_score base h1 h2, [frozenset (successor_of gl h1 h2)]) = Inr r"
        by (simp add: pair_loop_step)
      with v 1 show ?thesis by (rule better)
    next
      case 2
      with assms True Inr S have "r = (best, set_add (frozenset (successor_of gl h1 h2)) succs)"
        by (simp add: pair_loop_step)
      with v 2 show ?thesis by (rule full)
    next
      case 3
      with assms True Inr S have
        "pair_loop gl base ps (best, set_add (frozenset (successor_of gl h1 h2)) succs) = Inr r"
        by (simp add: pair_loop_step)
      with v 3 show ?thesis by (rule equal)
    next
      case 4
      with assms True Inr S have "pair_loop gl base ps (best, succs) = Inr r"
        by (simp add: pair_loop_step)
      with v 4 show ?thesis by (rule worse)
    qed
  qed
qed

lemma pair_loop_best_le:
  "pair_loop gl base ps (best, succs) = Inr (best', succs') \<Longrightarrow> best' \<le> best"
proof (induction ps arbitrary: best succs)
  case Nil
  then show ?case by simp
next
  case (Cons p ps)
  obtain h1 h2 where p: "p = (h1, h2)" by (cases p)
  from Cons.prems [unfolded p] show ?case
  proof (cases rule: pair_loop_step_cases)
    case skip
    then show ?thesis using Cons.IH by blast
  next
    case better
    then show ?thesis using Cons.IH [of "incremental_score base h1 h2"] by fastforce
  next
    case full
    then show ?thesis by simp
  next
    case equal
    then show ?thesis using Cons.IH by blast
  next
    case worse
    then show ?thesis using Cons.IH by blast
  qed
qed

lemma pair_loop_examined:
  "pair_loop gl base ps (best, succs) = Inr (best', succs') \<Longrightarrow>
   length succs' < MAX_SUCCESSORS \<Longrightarrow> (h1, h2) \<in> set ps \<Longrightarrow> valid_merge gl h1 h2 \<Longrightarrow>
   best' \<le> incremental_score base h1 h2"
proof (induction ps arbitrary: best succs)
  case Nil
  then show ?case by simp
next
  case (Cons p ps)
  obtain a b where p: "p = (a, b)" by (cases p)
  note mem = Cons.prems(3) [unfolded p]
  from Cons.prems(1) [unfolded p] show ?case
  proof (cases rule: pair_loop_step_cases)
    case skip
    with mem Cons.prems(4) have "(h1, h2) \<in> set ps" by auto
    with skip Cons.IH Cons.prems(2,4) show ?thesis by blast
  next
    case better
    show ?thesis
    proof (cases "(h1, h2) = (a, b)")
      case True
      then show ?thesis using pair_loop_best_le [OF better(3)] by simp
    next
      case False
      with mem have "(h1, h2) \<in> set ps" by auto
      with better(3) Cons.IH Cons.prems(2,4) show ?thesis by blast
    qed
  next
    case full
    with Cons.prems(2) show ?thesis by simp
  next
    case equal
    show ?thesis
    proof (cases "(h1, h2) = (a, b)")
      case True
      then show ?thesis using pair_loop_best_le [OF equal(4)] equal(2) by simp
    next
      case False
      with mem have "(h1, h2) \<in> set ps" by auto
      with equal(4) Cons.IH Cons.prems(2,4) show ?thesis by blast
    qed
  next
    case worse
    show ?thesis
    proof (cases "(h1, h2) = (a, b)")
      case True
      then show ?thesis using pair_loop_best_le [OF worse(3)] worse(2) by simp
    next
      case False
      with mem have "(h1, h2) \<in> set ps" by auto
      with worse(3) Cons.IH Cons.prems(2,4) show ?thesis by blast
    qed
  qed
qed

lemma pair_loop_origin:
  "pair_loop gl base ps (best, succs) = Inr (best', succs') \<Longrightarrow> s \<in> set succs' \<Longrightarrow>
   (s \<in> set succs \<and> best' = best) \<or>
   (\<exists>h1 h2. (h1, h2) \<in> set ps \<and> valid_merge gl h1 h2 \<and>
            incremental_score base h1 h2 = best' \<and> s = frozenset (successor_of gl h1 h2))"
proof (induction ps arbitrary: best succs)
  case Nil
  then show ?case by simp
next
  case (Cons p ps)
  obtain a b where p: "p = (a, b)" by (cases p)
  let ?new = "frozenset (successor_of gl a b)"
  from Cons.prems(1) [unfolded p] show ?case
  proof (cases rule: pair_loop_step_cases)
    case skip
    from Cons.IH [OF skip(2) Cons.prems(2)] show ?thesis by (auto simp: p)
  next
    case better
    from Cons.IH [OF better(3) Cons.prems(2)] better(1) show ?thesis
      by (auto simp: p)
  next
    case full
    then have "s \<in> insert ?new (set succs)" "best' = best"
      using Cons.prems(2) set_add_members [of ?new succs] by auto
    with full(1,2) show ?thesis by (auto simp: p)
  next
    case equal
    from Cons.IH [OF equal(4) Cons.prems(2)] equal(1,2)
      set_add_members [of ?new succs] show ?thesis
      by (auto simp: p)
  next
    case worse
    from Cons.IH [OF worse(3) Cons.prems(2)] show ?thesis by (auto simp: p)
  qed
qed

lemma pair_loop_length:
  "pair_loop gl base ps (best, succs) = Inr (best', succs') \<Longrightarrow>
   length succs < MAX_SUCCESSORS \<Longrightarrow> length succs' \<le> MAX_SUCCESSORS"
proof (induction ps arbitrary: best succs)
  case Nil
  then show ?case by simp
next
  case (Cons p ps)
  obtain a b where p: "p = (a, b)" by (cases p)
  let ?new = "frozenset (successor_of gl a b)"
  from Cons.prems(1) [unfolded p] show ?case
  proof (cases rule: pair_loop_step_cases)
    case skip
    then show ?thesis using Cons.IH Cons.prems(2) by blast
  next
    case better
    have "length [?new] < MAX_SUCCESSORS" by (simp add: MAX_SUCCESSORS_def)
    with better(3) Cons.IH show ?thesis by blast
  next
    case full
    then show ?thesis using set_add_length [of ?new succs] Cons.prems(2) by simp
  next
    case equal
    then show ?thesis using Cons.IH by blast
  next
    case worse
    then show ?thesis using Cons.IH Cons.prems(2) by blast
  qed
qed

lemma pair_loop_distinct:
  "pair_loop gl base ps (best, succs) = Inr (best', succs') \<Longrightarrow>
   distinct (map set succs) \<Longrightarrow> distinct (map set succs')"
proof (induction ps arbitrary: best succs)
  case Nil
  then show ?case by simp
next
  case (Cons p ps)
  obtain a b where p: "p = (a, b)" by (cases p)
  let ?new = "frozenset (successor_of gl a b)"
  from Cons.prems(1) [unfolded p] show ?case
  proof (cases rule: pair_loop_step_cases)
    case skip
    then show ?thesis using Cons.IH Cons.prems(2) by blast
  next
    case better
    have "distinct (map set [?new])" by simp
    with better(3) Cons.IH show ?thesis by blast
  next
    case full
    then show ?thesis using set_add_distinct [OF Cons.prems(2), of ?new] by simp
  next
    case equal
    then show ?thesis using Cons.IH set_add_distinct [OF Cons.prems(2), of ?new] by blast
  next
    case worse
    then show ?thesis using Cons.IH Cons.prems(2) by blast
  qed
qed

lemma pair_loop_total:
  "\<forall>(h1, h2)\<in>set ps. h1 \<in> set gl \<and> h2 \<in> set (remove1 h1 gl) \<Longrightarrow>
   \<exists>r. pair_loop gl base ps st = Inr r"
proof (induction ps arbitrary: st)
  case Nil
  show ?case by simp
next
  case (Cons p ps)
  obtain a b where p: "p = (a, b)" by (cases p)
  obtain best succs where st: "st = (best, succs)" by (cases st)
  have ab: "a \<in> set gl" "b \<in> set (remove1 a gl)" using Cons.prems p by auto
  then have ms: "make_successor gl a b = Inr (successor_of gl a b)"
    by (simp add: make_successor_Inr)
  have ih: "\<And>st'. \<exists>r. pair_loop gl base ps st' = Inr r"
    using Cons.IH Cons.prems by simp
  show ?case
    unfolding p st pair_loop_step ms using ih by simp
qed

lemma merged_fromI:
  assumes "valid_merge P h1 h2" "incremental_score (get_score P) h1 h2 = score"
    "distinct s" "set s = set (successor_of P h1 h2)"
  shows "merged_from P score s"
proof -
  have "h1 \<in> set P" "h2 \<in> set (remove1 h1 P)"
    using assms(1) by (simp_all add: valid_merge_def)
  then have "h1 \<in> set P" "h2 \<in> set P"
    by (metis, metis notin_set_remove1)
  with assms show ?thesis unfolding merged_from_def by blast
qed

lemma partitions_loop_full:
  "MAX_SUCCESSORS \<le> length succs \<Longrightarrow>
   partitions_loop Ps g (best, succs) = Inr ((best, succs), g)"
  by (cases Ps) simp_all

lemma partitions_loop_step_cases:
  assumes "partitions_loop (P # rest) g (best, succs) = Inr r"
  obtains
    (stop) "MAX_SUCCESSORS \<le> length succs" "r = ((best, succs), g)"
  | (go) sh g1 b1 s1 where "length succs < MAX_SUCCESSORS" "shuffle P g = (sh, g1)"
      "pair_loop sh (get_score P) (combinations2 sh) (best, succs) = Inr (b1, s1)"
      "partitions_loop rest g1 (b1, s1) = Inr r"
proof (cases "MAX_SUCCESSORS \<le> length succs")
  case True
  with assms have "r = ((best, succs), g)" by simp
  with True show ?thesis by (rule stop)
next
  case False
  obtain sh g1 where sh: "shuffle P g = (sh, g1)" by (cases "shuffle P g")
  show ?thesis
  proof (cases "pair_loop sh (get_score P) (combinations2 sh) (best, succs)")
    case (Inl e)
    with assms False sh show ?thesis by (simp add: pairs_def Let_def)
  next
    case (Inr st')
    obtain b1 s1 where st': "st' = (b1, s1)" by (cases st')
    have "partitions_loop rest g1 (b1, s1) = Inr r"
      using assms False sh Inr st' by (simp add: pairs_def Let_def)
    moreover have "length succs < MAX_SUCCESSORS" using False by simp
    ultimately show ?thesis using sh Inr st' go by blast
  qed
qed

lemma partitions_loop_best_le:
  "partitions_loop Ps g (best, succs) = Inr ((best', succs'), g') \<Longrightarrow> best' \<le> best"
proof (induction Ps arbitrary: g best succs)
  case Nil
  then show ?case by simp
next
  case (Cons P rest)
  from Cons.prems show ?case
  proof (cases rule: partitions_loop_step_cases)
    case stop
    then show ?thesis by simp
  next
    case (go sh g1 b1 s1)
    have "best' \<le> b1" using Cons.IH [OF go(4)] .
    also have "b1 \<le> best" using pair_loop_best_le [OF go(3)] .
    finally show ?thesis .
  qed
qed

lemma partitions_loop_examined:
  "partitions_loop Ps g (best, succs) = Inr ((best', succs'), g') \<Longrightarrow>
   length succs' < MAX_SUCCESSORS \<Longrightarrow> P \<in> set Ps \<Longrightarrow> valid_merge P h1 h2 \<Longrightarrow>
   best' \<le> incremental_score (get_score P) h1 h2"
proof (induction Ps arbitrary: g best succs)
  case Nil
  then show ?case by simp
next
  case (Cons Q rest)
  from Cons.prems(1) show ?case
  proof (cases rule: partitions_loop_step_cases)
    case stop
    with Cons.prems(2) show ?thesis by simp
  next
    case (go sh g1 b1 s1)
    show ?thesis
    proof (cases "P = Q")
      case False
      with Cons.prems(3) have "P \<in> set rest" by simp
      with Cons.IH [OF go(4) Cons.prems(2)] Cons.prems(4) show ?thesis by blast
    next
      case True
      have s1: "length s1 < MAX_SUCCESSORS"
      proof (rule ccontr)
        assume big: "\<not> length s1 < MAX_SUCCESSORS"
        then have "partitions_loop rest g1 (b1, s1) = Inr ((b1, s1), g1)"
          by (simp add: partitions_loop_full)
        with go(4) have "s1 = succs'" by simp
        with big Cons.prems(2) show False by simp
      qed
      have perm: "mset sh = mset P" using shuffle_props(1) [OF go(2)] True by simp
      then have v: "valid_merge sh h1 h2" using Cons.prems(4) valid_merge_perm by blast
      then have "h1 \<in> set sh" "h2 \<in> set (remove1 h1 sh)" by (simp_all add: valid_merge_def)
      then have "(h1, h2) \<in> set (combinations2 sh) \<or> (h2, h1) \<in> set (combinations2 sh)"
        by (rule combinations2_complete)
      then consider "(h1, h2) \<in> set (combinations2 sh)" | "(h2, h1) \<in> set (combinations2 sh)"
        by blast
      then have "b1 \<le> incremental_score (get_score Q) h1 h2"
      proof cases
        case 1
        then show ?thesis using pair_loop_examined [OF go(3) s1 _ v] by simp
      next
        case 2
        have "valid_merge sh h2 h1" using v valid_merge_sym by blast
        then have "b1 \<le> incremental_score (get_score Q) h2 h1"
          using pair_loop_examined [OF go(3) s1 2] by simp
        then show ?thesis by (simp add: incremental_score_sym [of _ h1 h2])
      qed
      moreover have "best' \<le> b1" using partitions_loop_best_le [OF go(4)] .
      ultimately show ?thesis using True by simp
    qed
  qed
qed

lemma frozenset_props: "distinct (frozenset xs)" "set (frozenset xs) = set xs"
  by (simp_all add: frozenset_def)

lemma partitions_loop_origin:
  "partitions_loop Ps g (best, succs) = Inr ((best', succs'), g') \<Longrightarrow> s \<in> set succs' \<Longrightarrow>
   (s \<in> set succs \<and> best' = best) \<or> (\<exists>P\<in>set Ps. merged_from P best' s)"
proof (induction Ps arbitrary: g best succs)
  case Nil
  then show ?case by simp
next
  case (Cons Q rest)
  from Cons.prems(1) show ?case
  proof (cases rule: partitions_loop_step_cases)
    case stop
    with Cons.prems(2) show ?thesis by simp
  next
    case (go sh g1 b1 s1)
    from Cons.IH [OF go(4) Cons.prems(2)]
    consider (kept) "s \<in> set s1" "best' = b1" | (later) "\<exists>P\<in>set rest. merged_from P best' s"
      by blast
    then show ?thesis
    proof cases
      case later
      then show ?thesis by auto
    next
      case kept
      from pair_loop_origin [OF go(3) kept(1)]
      consider (old) "s \<in> set succs" "b1 = best"
        | (new) h1 h2 where "(h1, h2) \<in> set (combinations2 sh)" "valid_merge sh h1 h2"
            "incremental_score (get_score Q) h1 h2 = b1" "s = frozenset (successor_of sh h1 h2)"
        by blast
      then show ?thesis
      proof cases
        case old
        with kept show ?thesis by simp
      next
        case new
        have perm: "mset sh = mset Q" using shuffle_props(1) [OF go(2)] .
        have "valid_merge Q h1 h2" using new(2) valid_merge_perm [OF perm] by simp
        moreover have "set s = set (successor_of Q h1 h2)"
          using new(4) successor_of_perm [OF perm] by (simp add: frozenset_props)
        moreover have "distinct s" using new(4) by (simp add: frozenset_props)
        ultimately have "merged_from Q best' s"
          using new(3) kept(2) by (intro merged_fromI [of Q h1 h2]) simp_all
        then show ?thesis by simp
      qed
    qed
  qed
qed

lemma partitions_loop_length:
  "partitions_loop Ps g (best, succs) = Inr ((best', succs'), g') \<Longrightarrow>
   length succs \<le> MAX_SUCCESSORS \<Longrightarrow> length succs' \<le> MAX_SUCCESSORS"
proof (induction Ps arbitrary: g best succs)
  case Nil
  then show ?case by simp
next
  case (Cons Q rest)
  from Cons.prems(1) show ?case
  proof (cases rule: partitions_loop_step_cases)
    case stop
    with Cons.prems(2) show ?thesis by simp
  next
    case (go sh g1 b1 s1)
    have "length s1 \<le> MAX_SUCCESSORS" using pair_loop_length [OF go(3) go(1)] .
    then show ?thesis using Cons.IH [OF go(4)] by simp
  qed
qed

lemma partitions_loop_distinct:
  "partitions_loop Ps g (best, succs) = Inr ((best', succs'), g') \<Longrightarrow>
   distinct (map set succs) \<Longrightarrow> distinct (map set succs')"
proof (induction Ps arbitrary: g best succs)
  case Nil
  then show ?case by simp
next
  case (Cons Q rest)
  from Cons.prems(1) show ?case
  proof (cases rule: partitions_loop_step_cases)
    case stop
    with Cons.prems(2) show ?thesis by simp
  next
    case (go sh g1 b1 s1)
    have "distinct (map set s1)" using pair_loop_distinct [OF go(3) Cons.prems(2)] .
    then show ?thesis using Cons.IH [OF go(4)] by simp
  qed
qed

lemma partitions_loop_total: "\<exists>r. partitions_loop Ps g st = Inr r"
proof (induction Ps arbitrary: g st)
  case Nil
  show ?case by simp
next
  case (Cons Q rest)
  obtain best succs where st: "st = (best, succs)" by (cases st)
  obtain sh g1 where sh: "shuffle Q g = (sh, g1)" by (cases "shuffle Q g")
  have "\<forall>(h1, h2)\<in>set (combinations2 sh). h1 \<in> set sh \<and> h2 \<in> set (remove1 h1 sh)"
    by (auto dest: combinations2_sound)
  then obtain r where r: "pair_loop sh (get_score Q) (combinations2 sh) (best, succs) = Inr r"
    using pair_loop_total by blast
  show ?case
    using Cons.IH [of g1 r] by (simp add: st pairs_def sh r)
qed

lemma list_each_props:
  "list_each ss g = (rs, g') \<Longrightarrow> list_all2 (\<lambda>r s. mset r = mset s) rs ss"
proof (induction ss arbitrary: g rs g')
  case Nil
  then show ?case by simp
next
  case (Cons s ss)
  obtain s' g1 where s': "shuffle s g = (s', g1)" by (cases "shuffle s g")
  obtain ss' g2 where ss': "list_each ss g1 = (ss', g2)" by (cases "list_each ss g1")
  from Cons.prems have rs: "rs = s' # ss'" by (simp add: s' ss')
  have "mset s' = mset s" using shuffle_props(1) [OF s'] .
  moreover have "list_all2 (\<lambda>r s. mset r = mset s) ss' ss" using Cons.IH [OF ss'] .
  ultimately show ?case by (simp add: rs)
qed

lemma set_to_lists_props:
  assumes "set_to_lists ss g = (rs, g')"
  shows "length rs = length ss"
    and "\<forall>r\<in>set rs. \<exists>s\<in>set ss. mset r = mset s"
    and "distinct (map set ss) \<Longrightarrow> distinct (map set rs)"
proof -
  obtain order g1 where order: "shuffle ss g = (order, g1)" by (cases "shuffle ss g")
  with assms have le: "list_each order g1 = (rs, g')" by (simp add: set_to_lists_def)
  have all2: "list_all2 (\<lambda>r s. mset r = mset s) rs order" using list_each_props [OF le] .
  have perm: "mset order = mset ss" using shuffle_props(1) [OF order] .
  show "length rs = length ss"
    using list_all2_lengthD [OF all2] shuffle_props(3) [OF order] by simp
  show "\<forall>r\<in>set rs. \<exists>s\<in>set ss. mset r = mset s"
  proof
    fix r assume "r \<in> set rs"
    then obtain i where i: "i < length rs" "rs ! i = r" by (auto simp: in_set_conv_nth)
    have "mset (rs ! i) = mset (order ! i)" using all2 i(1) by (rule list_all2_nthD)
    moreover have "order ! i \<in> set order"
      using i(1) list_all2_lengthD [OF all2] by simp
    ultimately obtain s where "s \<in> set order" "mset r = mset s" using i(2) by blast
    moreover have "set order = set ss" using perm by (rule mset_eq_setD)
    ultimately show "\<exists>s\<in>set ss. mset r = mset s" by blast
  qed
  assume d: "distinct (map set ss)"
  have "map set rs = map set order"
    using all2 by (induction rs order rule: list_all2_induct) (auto dest: mset_eq_setD)
  moreover have "mset (map set order) = mset (map set ss)" using perm by simp
  ultimately show "distinct (map set rs)"
    using d by (metis mset_eq_imp_distinct_iff)
qed

text \<open>What one round returns, before the conversions are undone.\<close>

lemma successors_by_agglomeration_unfold:
  assumes "successors_by_agglomeration Ps g = Inr (best, result, g')"
  obtains succs g1 where
    "partitions_loop Ps g (maxsize, []) = Inr ((best, succs), g1)"
    "set_to_lists succs g1 = (result, g')"
    "length succs \<le> MAX_SUCCESSORS"
proof -
  obtain b succs g1 where pl: "partitions_loop Ps g (maxsize, []) = Inr ((b, succs), g1)"
    using partitions_loop_total [of Ps g "(maxsize, [])"] by (metis surj_pair)
  obtain rs g2 where rs: "set_to_lists succs g1 = (rs, g2)" by (cases "set_to_lists succs g1")
  have len: "length succs \<le> MAX_SUCCESSORS"
    using partitions_loop_length [OF pl] by simp
  then have "\<not> MAX_SUCCESSORS < length rs" using set_to_lists_props(1) [OF rs] by simp
  with assms pl rs have "b = best" "rs = result" "g2 = g'"
    by (simp_all add: successors_by_agglomeration_def)
  with pl rs len that show ?thesis by blast
qed

lemma successors_by_agglomeration_total:
  "\<exists>best result g'. successors_by_agglomeration Ps g = Inr (best, result, g')"
proof -
  obtain b succs g1 where pl: "partitions_loop Ps g (maxsize, []) = Inr ((b, succs), g1)"
    using partitions_loop_total [of Ps g "(maxsize, [])"] by (metis surj_pair)
  obtain rs g2 where rs: "set_to_lists succs g1 = (rs, g2)" by (cases "set_to_lists succs g1")
  obtain ch g3 where ch: "sample rs MAX_SUCCESSORS g2 = (ch, g3)"
    by (cases "sample rs MAX_SUCCESSORS g2")
  show ?thesis by (simp add: successors_by_agglomeration_def pl rs ch)
qed

lemma successor_origin:
  assumes "successors_by_agglomeration Ps g = Inr (best, result, g')" "s \<in> set result"
  shows "\<exists>P\<in>set Ps. merged_from P best s"
proof -
  from assms(1) obtain succs g1 where
    pl: "partitions_loop Ps g (maxsize, []) = Inr ((best, succs), g1)" and
    rs: "set_to_lists succs g1 = (result, g')"
    by (rule successors_by_agglomeration_unfold)
  obtain t where t: "t \<in> set succs" "mset s = mset t"
    using set_to_lists_props(2) [OF rs] assms(2) by blast
  from partitions_loop_origin [OF pl t(1)] obtain P where P: "P \<in> set Ps" "merged_from P best t"
    by auto
  have "distinct s = distinct t" "set s = set t"
    using t(2) by (auto dest: mset_eq_imp_distinct_iff mset_eq_setD)
  with P(2) have "merged_from P best s" by (simp add: merged_from_def)
  with P(1) show ?thesis by blast
qed

lemma merged_from_shorter:
  assumes "merged_from P score s"
  shows "length s < length P"
proof -
  from assms obtain h1 h2 where v: "valid_merge P h1 h2" and d: "distinct s"
    and e: "set s = set (successor_of P h1 h2)"
    by (auto simp: merged_from_def)
  have "length s = card (set s)" using d by (simp add: distinct_card)
  also have "\<dots> \<le> length (successor_of P h1 h2)" unfolding e by (rule card_length)
  also have "\<dots> < length P" using v by (simp add: valid_merge_def length_successor_of)
  finally show ?thesis .
qed

text \<open>
  C4. Every successor that a round returns comes from one of the round's
  candidate partitions by a valid merge (two members taken out, the merged one
  put in, repetitions dropped), and has fewer members than that partition. So
  when the loop of \<open>agglomerate\<close> goes on to the next round, its new number of
  greenhouses, the length of the first successor, is below the length of a
  candidate of the round before.
\<close>

theorem successor_cardinality_decreases:
  assumes "successors_by_agglomeration Ps g = Inr (best, result, g')"
  shows "(\<forall>s\<in>set result. \<exists>P\<in>set Ps. merged_from P best s \<and> length s < length P) \<and>
         (goal < num \<and> result \<noteq> [] \<longrightarrow>
            agglomerate_loop maximum goal num Ps holder g =
              agglomerate_loop maximum goal (int (length (hd result))) result
                (store holder (hd result) best maximum) g' \<and>
            (\<exists>P\<in>set Ps. length (hd result) < length P))"
proof (intro conjI impI)
  show all: "\<forall>s\<in>set result. \<exists>P\<in>set Ps. merged_from P best s \<and> length s < length P"
  proof
    fix s assume "s \<in> set result"
    then obtain P where "P \<in> set Ps" "merged_from P best s"
      using successor_origin [OF assms] by blast
    then show "\<exists>P\<in>set Ps. merged_from P best s \<and> length s < length P"
      using merged_from_shorter by blast
  qed
  assume a: "goal < num \<and> result \<noteq> []"
  then obtain first others where r: "result = first # others" by (cases result) auto
  show "agglomerate_loop maximum goal num Ps holder g =
          agglomerate_loop maximum goal (int (length (hd result))) result
            (store holder (hd result) best maximum) g'"
    using a by (subst agglomerate_loop.simps) (simp add: assms r)
  show "\<exists>P\<in>set Ps. length (hd result) < length P"
    using all r by auto
qed

theorem successor_cardinality_decreases_witness:
  "successors_by_agglomeration
     [[make_rectangle 0 0 0 0, make_rectangle 0 2 0 2, make_rectangle 5 5 5 5]] [] =
     Inr (24, [[make_rectangle 0 0 0 2, make_rectangle 5 5 5 5]], []) \<and>
   merged_from [make_rectangle 0 0 0 0, make_rectangle 0 2 0 2, make_rectangle 5 5 5 5] 24
     [make_rectangle 0 0 0 2, make_rectangle 5 5 5 5] \<and>
   length [make_rectangle 0 0 0 2, make_rectangle 5 5 5 5] <
   length [make_rectangle 0 0 0 0, make_rectangle 0 2 0 2, make_rectangle 5 5 5 5] \<and>
   agglomerate_loop 2 1 3
     [[make_rectangle 0 0 0 0, make_rectangle 0 2 0 2, make_rectangle 5 5 5 5]]
     BestSolution_init [] =
   agglomerate_loop 2 1 2 [[make_rectangle 0 0 0 2, make_rectangle 5 5 5 5]]
     (store BestSolution_init [make_rectangle 0 0 0 2, make_rectangle 5 5 5 5] 24 2) []"
proof -
  have ev: "successors_by_agglomeration
     [[make_rectangle 0 0 0 0, make_rectangle 0 2 0 2, make_rectangle 5 5 5 5]] [] =
     Inr (24, [[make_rectangle 0 0 0 2, make_rectangle 5 5 5 5]], [])"
    by code_simp
  show ?thesis
    using successor_cardinality_decreases [OF ev, of 1 3 2 BestSolution_init] ev by simp
qed

text \<open>
  C1, as the code has it. A round always returns. Every successor it returns
  comes from a candidate partition by a valid merge whose incremental score is
  the returned best score; no two returned successors have the same members;
  there are at most 100 of them, and they are the whole set that the loops have
  built, which never exceeds 100, so nothing is sampled. When fewer than 100 are
  returned, the best score is at most the incremental score of every valid merge
  of every candidate partition, so it is the minimum. (With 100 successors the
  scan has stopped and later pairs and partitions were not examined.)
\<close>

theorem round_keeps_best_merges:
  "(\<exists>best result g'. successors_by_agglomeration Ps g = Inr (best, result, g')) \<and>
   (successors_by_agglomeration Ps g = Inr (best, result, g') \<longrightarrow>
      (\<forall>s\<in>set result. \<exists>P\<in>set Ps. merged_from P best s) \<and>
      (length result < MAX_SUCCESSORS \<longrightarrow>
         (\<forall>P\<in>set Ps. \<forall>h1 h2. valid_merge P h1 h2 \<longrightarrow>
              best \<le> incremental_score (get_score P) h1 h2)) \<and>
      distinct (map set result) \<and>
      length result \<le> MAX_SUCCESSORS \<and> MAX_SUCCESSORS = 100 \<and>
      (\<exists>successors g1.
          partitions_loop Ps g (maxsize, []) = Inr ((best, successors), g1) \<and>
          length successors \<le> MAX_SUCCESSORS \<and>
          set_to_lists successors g1 = (result, g')))"
proof (intro conjI impI)
  show "\<exists>best result g'. successors_by_agglomeration Ps g = Inr (best, result, g')"
    by (rule successors_by_agglomeration_total)
next
  assume run: "successors_by_agglomeration Ps g = Inr (best, result, g')"
  then obtain succs g1 where
    pl: "partitions_loop Ps g (maxsize, []) = Inr ((best, succs), g1)" and
    rs: "set_to_lists succs g1 = (result, g')" and
    len: "length succs \<le> MAX_SUCCESSORS"
    by (rule successors_by_agglomeration_unfold)
  show "\<forall>s\<in>set result. \<exists>P\<in>set Ps. merged_from P best s"
    using successor_origin [OF run] by blast
  show "distinct (map set result)"
    using set_to_lists_props(3) [OF rs] partitions_loop_distinct [OF pl] by simp
  show "length result \<le> MAX_SUCCESSORS"
    using set_to_lists_props(1) [OF rs] len by simp
  show "MAX_SUCCESSORS = 100" by (rule MAX_SUCCESSORS_def)
  show "\<exists>successors g1.
          partitions_loop Ps g (maxsize, []) = Inr ((best, successors), g1) \<and>
          length successors \<le> MAX_SUCCESSORS \<and>
          set_to_lists successors g1 = (result, g')"
    using pl len rs by blast
  show "\<forall>P\<in>set Ps. \<forall>h1 h2. valid_merge P h1 h2 \<longrightarrow>
           best \<le> incremental_score (get_score P) h1 h2"
    if "length result < MAX_SUCCESSORS"
  proof -
    have "length succs < MAX_SUCCESSORS" using that set_to_lists_props(1) [OF rs] by simp
    then show ?thesis using partitions_loop_examined [OF pl] by blast
  qed
qed

theorem round_keeps_best_merges_witness:
  "successors_by_agglomeration
     [[make_rectangle 0 0 0 0, make_rectangle 0 2 0 2, make_rectangle 0 4 0 4]] [1, 2, 3] =
     Inr (24, [[make_rectangle 0 2 0 4, make_rectangle 0 0 0 0],
               [make_rectangle 0 0 0 2, make_rectangle 0 4 0 4]], []) \<and>
   length [[make_rectangle 0 2 0 4, make_rectangle 0 0 0 0],
           [make_rectangle 0 0 0 2, make_rectangle 0 4 0 4]] < MAX_SUCCESSORS \<and>
   valid_merge [make_rectangle 0 0 0 0, make_rectangle 0 2 0 2, make_rectangle 0 4 0 4]
     (make_rectangle 0 0 0 0) (make_rectangle 0 2 0 2) \<and>
   24 \<le> incremental_score
          (get_score [make_rectangle 0 0 0 0, make_rectangle 0 2 0 2, make_rectangle 0 4 0 4])
          (make_rectangle 0 0 0 0) (make_rectangle 0 2 0 2) \<and>
   merged_from [make_rectangle 0 0 0 0, make_rectangle 0 2 0 2, make_rectangle 0 4 0 4] 24
     [make_rectangle 0 2 0 4, make_rectangle 0 0 0 0] \<and>
   merged_from [make_rectangle 0 0 0 0, make_rectangle 0 2 0 2, make_rectangle 0 4 0 4] 24
     [make_rectangle 0 0 0 2, make_rectangle 0 4 0 4]"
proof -
  have ev: "successors_by_agglomeration
     [[make_rectangle 0 0 0 0, make_rectangle 0 2 0 2, make_rectangle 0 4 0 4]] [1, 2, 3] =
     Inr (24, [[make_rectangle 0 2 0 4, make_rectangle 0 0 0 0],
               [make_rectangle 0 0 0 2, make_rectangle 0 4 0 4]], [])"
    by code_simp
  have v: "valid_merge [make_rectangle 0 0 0 0, make_rectangle 0 2 0 2, make_rectangle 0 4 0 4]
     (make_rectangle 0 0 0 0) (make_rectangle 0 2 0 2)"
    by code_simp
  have small: "length [[make_rectangle 0 2 0 4, make_rectangle 0 0 0 0],
           [make_rectangle 0 0 0 2, make_rectangle 0 4 0 4]] < MAX_SUCCESSORS"
    by (simp add: MAX_SUCCESSORS_def)
  show ?thesis
    using round_keeps_best_merges
      [of "[[make_rectangle 0 0 0 0, make_rectangle 0 2 0 2, make_rectangle 0 4 0 4]]"
          "[1, 2, 3]" 24
          "[[make_rectangle 0 2 0 4, make_rectangle 0 0 0 0],
            [make_rectangle 0 0 0 2, make_rectangle 0 4 0 4]]" "[]"]
      ev v small
    by simp
qed

text \<open>
  The best score of a round need not be the minimum over all valid merges: in the
  round above the scan stops after the first hundred candidates with the best
  score 13, and the valid merge of the last candidate, of score 12, is never
  examined.
\<close>

theorem best_score_not_minimum_counterexample:
  "map_sum id fst (successors_by_agglomeration (early_candidates @ [late_candidate]) []) =
     Inr 13 \<and>
   late_candidate \<in> set (early_candidates @ [late_candidate]) \<and>
   valid_merge late_candidate (make_rectangle 0 0 0 0) (make_rectangle 0 1 0 1) \<and>
   incremental_score (get_score late_candidate)
     (make_rectangle 0 0 0 0) (make_rectangle 0 1 0 1) = 12"
proof (intro conjI)
  show "map_sum id fst (successors_by_agglomeration (early_candidates @ [late_candidate]) []) =
     Inr 13"
    by code_simp
  show "late_candidate \<in> set (early_candidates @ [late_candidate])" by simp
  show "valid_merge late_candidate (make_rectangle 0 0 0 0) (make_rectangle 0 1 0 1)"
    by code_simp
  show "incremental_score (get_score late_candidate)
     (make_rectangle 0 0 0 0) (make_rectangle 0 1 0 1) = 12"
    by code_simp
qed

section \<open>The initial partition covers the field\<close>

lemma keys_update: "fst ` set (AList.update k v al) = insert k (fst ` set al)"
  using AList.dom_update [of k v al] by (simp add: dom_map_of_conv_image_fst)

lemma mix_first_keys: "fst ` set (mix_first l mix) = fst ` set mix \<union> fst ` set l"
  by (induction l mix rule: mix_first.induct) (auto simp: keys_update)

lemma mix_second_keys:
  "mix_second l mix = Inr mix' \<Longrightarrow> fst ` set mix \<subseteq> fst ` set mix'"
proof (induction l mix rule: mix_second.induct)
  case (1 mix)
  then show ?case by simp
next
  case (2 berry idx rest mix)
  then obtain ids where ids: "map_of mix berry = Some ids"
    by (cases "map_of mix berry") auto
  with "2.prems" have "mix_second rest (AList.update berry (ids @ [idx]) mix) = Inr mix'"
    by simp
  from "2.IH" [OF ids this] show ?case by (auto simp: keys_update)
qed

lemma mirror_loop_keeps:
  "mirror_loop order mix mirror = Inr mirror' \<Longrightarrow> map_of mirror k = Some pts \<Longrightarrow>
   \<exists>pts'. map_of mirror' k = Some pts' \<and> set pts \<subseteq> set pts'"
proof (induction order arbitrary: mirror pts)
  case Nil
  then show ?case by simp
next
  case (Cons berry rest)
  from Cons.prems(1) obtain key where key: "map_of mix berry = Some key"
    by (cases "map_of mix berry") auto
  define mirror1 where
    "mirror1 = (case map_of mirror key of None \<Rightarrow> AList.update key [] mirror | Some v \<Rightarrow> mirror)"
  from Cons.prems(1) key obtain v where v: "map_of mirror1 key = Some v"
    by (cases "map_of mirror1 key") (auto simp: mirror1_def Let_def)
  have rec: "mirror_loop rest mix (AList.update key (v @ [berry]) mirror1) = Inr mirror'"
    using Cons.prems(1) key v by (simp add: mirror1_def Let_def)
  have m1: "map_of mirror1 k = Some pts"
    using Cons.prems(2) by (auto simp: mirror1_def update_conv' split: option.splits)
  have "\<exists>q. map_of (AList.update key (v @ [berry]) mirror1) k = Some q \<and> set pts \<subseteq> set q"
    using m1 v by (auto simp: update_conv')
  then obtain q where q: "map_of (AList.update key (v @ [berry]) mirror1) k = Some q"
    "set pts \<subseteq> set q" by blast
  from Cons.IH [OF rec q(1)] q(2) show ?case by blast
qed

lemma mirror_loop_places:
  "mirror_loop order mix mirror = Inr mirror' \<Longrightarrow> b \<in> set order \<Longrightarrow>
   \<exists>k pts. map_of mirror' k = Some pts \<and> b \<in> set pts"
proof (induction order arbitrary: mirror)
  case Nil
  then show ?case by simp
next
  case (Cons berry rest)
  from Cons.prems(1) obtain key where key: "map_of mix berry = Some key"
    by (cases "map_of mix berry") auto
  define mirror1 where
    "mirror1 = (case map_of mirror key of None \<Rightarrow> AList.update key [] mirror | Some v \<Rightarrow> mirror)"
  from Cons.prems(1) key obtain v where v: "map_of mirror1 key = Some v"
    by (cases "map_of mirror1 key") (auto simp: mirror1_def Let_def)
  have rec: "mirror_loop rest mix (AList.update key (v @ [berry]) mirror1) = Inr mirror'"
    using Cons.prems(1) key v by (simp add: mirror1_def Let_def)
  show ?case
  proof (cases "b = berry")
    case True
    have "map_of (AList.update key (v @ [berry]) mirror1) key = Some (v @ [berry])"
      by (simp add: update_conv')
    from mirror_loop_keeps [OF rec this] True show ?thesis by auto
  next
    case False
    with Cons.prems(2) have "b \<in> set rest" by simp
    from Cons.IH [OF rec this] show ?thesis .
  qed
qed

lemma state_loop_keeps:
  "state_loop order mirror state = Inr state' \<Longrightarrow> set state \<subseteq> set state'"
proof (induction order arbitrary: state)
  case Nil
  then show ?case by simp
next
  case (Cons k rest)
  from Cons.prems obtain pts where pts: "map_of mirror k = Some pts"
    by (cases "map_of mirror k") auto
  with Cons.prems obtain rect where rect: "pointlist2rectangle pts = Inr rect"
    by (cases "pointlist2rectangle pts") auto
  have "state_loop rest mirror (state @ [rect]) = Inr state'"
    using Cons.prems pts rect by simp
  from Cons.IH [OF this] show ?case by simp
qed

lemma state_loop_covers:
  "state_loop order mirror state = Inr state' \<Longrightarrow> k \<in> set order \<Longrightarrow>
   map_of mirror k = Some pts \<Longrightarrow> b \<in> set pts \<Longrightarrow> \<exists>r\<in>set state'. contains r b"
proof (induction order arbitrary: state)
  case Nil
  then show ?case by simp
next
  case (Cons k' rest)
  from Cons.prems(1) obtain pts' where pts': "map_of mirror k' = Some pts'"
    by (cases "map_of mirror k'") auto
  with Cons.prems(1) obtain rect where rect: "pointlist2rectangle pts' = Inr rect"
    by (cases "pointlist2rectangle pts'") auto
  have rec: "state_loop rest mirror (state @ [rect]) = Inr state'"
    using Cons.prems(1) pts' rect by simp
  show ?case
  proof (cases "k = k'")
    case True
    with pts' Cons.prems(3) have same: "pts' = pts" by simp
    from rect obtain p ps where "pts' = p # ps" "rect = bounding_box p ps"
      by (cases pts') (auto simp: pointlist2rectangle_def)
    with same Cons.prems(4) have "contains rect b" by (simp add: bounding_box_contains)
    moreover have "rect \<in> set state'" using state_loop_keeps [OF rec] by auto
    ultimately show ?thesis by blast
  next
    case False
    with Cons.prems(2) have "k \<in> set rest" by simp
    from Cons.IH [OF rec this Cons.prems(3,4)] show ?thesis .
  qed
qed

lemma list_berries_keys:
  "list_berries f prt = Inr l \<Longrightarrow> get_berries_in_rectangle f (root_region f) = Inr bs \<Longrightarrow>
   fst ` set l = set bs"
  by (auto simp: list_berries_def image_iff)

lemma cross_partitions_covers:
  assumes run: "cross_partitions f horiz_runs vertical_runs g = Inr (state, g')"
    and f: "f = StrawberryField n data_rows"
    and b: "b \<in> occupied f"
  shows "\<exists>r\<in>set state. contains r b"
proof -
  obtain bs where bs: "get_berries_in_rectangle f (root_region f) = Inr bs" "set bs = occupied f"
    using root_region_berries [OF f] by blast
  from run obtain lh where lh: "list_berries f horiz_runs = Inr lh"
    by (cases "list_berries f horiz_runs") (auto simp: cross_partitions_def)
  from run lh obtain lv where lv: "list_berries f vertical_runs = Inr lv"
    by (cases "list_berries f vertical_runs") (auto simp: cross_partitions_def)
  from run lh lv obtain mix where mix: "mix_second lv (mix_first lh []) = Inr mix"
    by (cases "mix_second lv (mix_first lh [])") (auto simp: cross_partitions_def)
  obtain berry_order g1 where bo: "shuffle (map fst mix) g = (berry_order, g1)"
    by (cases "shuffle (map fst mix) g")
  from run lh lv mix bo obtain mirror where mirror: "mirror_loop berry_order mix [] = Inr mirror"
    by (cases "mirror_loop berry_order mix []") (auto simp: cross_partitions_def)
  obtain key_order g2 where ko: "shuffle (map fst mirror) g1 = (key_order, g2)"
    by (cases "shuffle (map fst mirror) g1")
  from run lh lv mix bo mirror ko have st: "state_loop key_order mirror [] = Inr state"
    by (cases "state_loop key_order mirror []") (auto simp: cross_partitions_def)
  have "b \<in> fst ` set lh" using list_berries_keys [OF lh bs(1)] bs(2) b by simp
  then have "b \<in> fst ` set (mix_first lh [])" by (simp add: mix_first_keys)
  then have "b \<in> fst ` set mix" using mix_second_keys [OF mix] by blast
  then have "b \<in> set berry_order" using shuffle_props(2) [OF bo] by simp
  then obtain k pts where k: "map_of mirror k = Some pts" "b \<in> set pts"
    using mirror_loop_places [OF mirror] by blast
  then have "k \<in> fst ` set mirror" by (metis domI dom_map_of_conv_image_fst)
  then have "k \<in> set key_order" using shuffle_props(2) [OF ko] by simp
  from state_loop_covers [OF st this k] show ?thesis .
qed

lemma start_state_covers:
  assumes "f = StrawberryField n data_rows"
    and "get_start_state f g = Inr (state, g')"
    and "b \<in> occupied f"
  shows "\<exists>r\<in>set state. contains r b"
proof -
  from assms(2) obtain vertical_runs g1 where
    "runs_to_partition f (get_vertical_runs f) g = Inr (vertical_runs, g1)"
    by (cases "runs_to_partition f (get_vertical_runs f) g") (auto simp: get_start_state_def)
  moreover from assms(2) this obtain horiz_runs g2 where
    "runs_to_partition f (get_horizontal_runs f) g1 = Inr (horiz_runs, g2)"
    by (cases "runs_to_partition f (get_horizontal_runs f) g1") (auto simp: get_start_state_def)
  ultimately have "cross_partitions f horiz_runs vertical_runs g2 = Inr (state, g')"
    using assms(2) by (simp add: get_start_state_def)
  from cross_partitions_covers [OF this assms(1,3)] show ?thesis .
qed

section \<open>The initial-partition builder returns\<close>

lemma rows_each_distinct:
  assumes "field_ok f" "i < length (rows f)"
  shows "distinct (rows f ! i)"
proof -
  have "distinct (concat (rows f))" using assms(1) by (simp add: field_ok_def)
  moreover have "rows f ! i \<in> set (rows f)" using assms(2) by simp
  ultimately show ?thesis by (simp add: distinct_concat_iff)
qed

lemma concat_rows_distinct:
  assumes ok: "field_ok f"
  shows "distinct is \<Longrightarrow> \<forall>i\<in>set is. 0 \<le> i \<and> i < int (length (rows f)) \<Longrightarrow>
         distinct (concat (map (\<lambda>i. filter P (rows f ! nat i)) is))"
proof (induction "is")
  case Nil
  show ?case by simp
next
  case (Cons i "is")
  have i: "nat i < length (rows f)" using Cons.prems(2) by auto
  have d1: "distinct (filter P (rows f ! nat i))"
    using rows_each_distinct [OF ok i] by simp
  have d2: "distinct (concat (map (\<lambda>i. filter P (rows f ! nat i)) is))"
    using Cons by simp
  have "set (filter P (rows f ! nat i)) \<inter>
        set (concat (map (\<lambda>i. filter P (rows f ! nat i)) is)) = {}"
  proof (rule ccontr)
    assume "\<not> ?thesis"
    then obtain b j where b: "b \<in> set (rows f ! nat i)" and j: "j \<in> set is"
      and b': "b \<in> set (rows f ! nat j)"
      by auto
    have "nat j < length (rows f)" using Cons.prems(2) j by auto
    with ok b' have "fst b = int (nat j)" by (simp add: field_ok_def)
    moreover from ok b i have "fst b = int (nat i)" by (simp add: field_ok_def)
    moreover have "0 \<le> i" "0 \<le> j" using Cons.prems(2) j by simp_all
    ultimately have "i = j" by simp
    with j Cons.prems(1) show False by simp
  qed
  with d1 d2 show ?case by simp
qed

lemma get_berries_in_grid_distinct:
  assumes ok: "field_ok f" and t: "0 \<le> top_of rect" and b: "bottom_of rect < num_rows f"
    and bs: "get_berries_in_rectangle f rect = Inr bs"
  shows "distinct bs"
proof -
  have len: "num_rows f = int (length (rows f))" using ok by (simp add: field_ok_def)
  have rng: "\<forall>i\<in>set [top_of rect .. bottom_of rect]. 0 \<le> i \<and> i < int (length (rows f))"
    using t b len by auto
  then have "bs = concat (map (\<lambda>i. filter (contains rect) (rows f ! nat i))
                              [top_of rect .. bottom_of rect])"
    using bs by (simp add: get_berries_in_rectangle_def berries_loop_in_range)
  then show ?thesis using concat_rows_distinct [OF ok _ rng] by simp
qed

lemma root_region_in_rows:
  assumes f: "f = StrawberryField n data_rows"
  shows "0 \<le> top_of (root_region f)" "bottom_of (root_region f) < num_rows f"
proof -
  have ok: "field_ok f" using f by (simp add: field_ok_StrawberryField)
  have rr: "root_region f = make_rectangle (top_f f) (left_f f) (bottom_f f) (right_f f)"
    using f by (rule root_region_StrawberryField)
  show "0 \<le> top_of (root_region f)" "bottom_of (root_region f) < num_rows f"
    using ok by (simp_all add: rr make_rectangle_def Let_def field_ok_def)
qed

lemma root_berries:
  assumes f: "f = StrawberryField n data_rows"
  obtains bs where "get_berries_in_rectangle f (root_region f) = Inr bs"
    "set bs = occupied f" "distinct bs"
    "\<forall>b\<in>set bs. 0 \<le> fst b \<and> fst b < num_rows f"
proof -
  have ok: "field_ok f" using f by (simp add: field_ok_StrawberryField)
  obtain bs where bs: "get_berries_in_rectangle f (root_region f) = Inr bs" "set bs = occupied f"
    using root_region_berries [OF f] by blast
  have d: "distinct bs"
    using get_berries_in_grid_distinct [OF ok root_region_in_rows [OF f] bs(1)] .
  have "\<forall>b\<in>set bs. 0 \<le> fst b \<and> fst b < num_rows f"
  proof
    fix b assume "b \<in> set bs"
    then have "b \<in> occupied f" using bs(2) by simp
    then obtain r where "r \<in> set (rows f)" "b \<in> set r" by (auto simp: occupied_def)
    then obtain i where "i < length (rows f)" "b \<in> set (rows f ! i)"
      by (auto simp: in_set_conv_nth)
    with ok show "0 \<le> fst b \<and> fst b < num_rows f" by (simp add: field_ok_def)
  qed
  with bs d that show ?thesis by blast
qed

text \<open>The runs of one line.\<close>

lemma scan_line_runs:
  "run \<in> set (scan_line berries pts buf) \<Longrightarrow> run \<noteq> [] \<and> set run \<subseteq> set buf \<union> set pts"
proof (induction pts arbitrary: buf)
  case Nil
  then show ?case by (auto split: if_splits)
next
  case (Cons p pts)
  show ?case
  proof (cases "p \<in> set berries")
    case True
    with Cons.prems have "run \<in> set (scan_line berries pts (buf @ [p]))" by simp
    from Cons.IH [OF this] show ?thesis by auto
  next
    case False
    with Cons.prems consider "run = buf" "buf \<noteq> []" | "run \<in> set (scan_line berries pts [])"
      | "run \<in> set (scan_line berries pts buf)" "buf = []"
      by (auto split: if_splits)
    then show ?thesis
    proof cases
      case 1
      then show ?thesis by auto
    next
      case 2
      from Cons.IH [OF this] show ?thesis by auto
    next
      case 3
      from Cons.IH [OF 3(1)] show ?thesis by auto
    qed
  qed
qed

lemma scan_line_distinct:
  "distinct (buf @ pts) \<Longrightarrow> distinct (concat (scan_line berries pts buf))"
proof (induction pts arbitrary: buf)
  case Nil
  then show ?case by simp
next
  case (Cons p pts)
  show ?case
  proof (cases "p \<in> set berries")
    case True
    have "distinct ((buf @ [p]) @ pts)" using Cons.prems by simp
    from Cons.IH [OF this] True show ?thesis by simp
  next
    case False
    have d0: "distinct ([] @ pts)" using Cons.prems by simp
    have rest: "distinct (concat (scan_line berries pts []))" using Cons.IH [OF d0] .
    have sub: "set (concat (scan_line berries pts [])) \<subseteq> set pts"
      using scan_line_runs [of _ berries pts "[]"] by auto
    have "set buf \<inter> set pts = {}" "distinct buf" using Cons.prems by auto
    with sub rest False show ?thesis by (cases "buf = []") auto
  qed
qed

lemma line_runs_distinct:
  assumes "distinct cs"
    and "\<And>c run p. c \<in> set cs \<Longrightarrow> run \<in> set (F c) \<Longrightarrow> p \<in> set run \<Longrightarrow> key p = c"
    and "\<And>c. c \<in> set cs \<Longrightarrow> distinct (concat (F c))"
  shows "distinct (concat (concat (map F cs)))"
  using assms
proof (induction cs)
  case Nil
  show ?case by simp
next
  case (Cons c cs)
  have d1: "distinct (concat (F c))" using Cons.prems(3) by simp
  have d2: "distinct (concat (concat (map F cs)))"
    using Cons.IH Cons.prems by simp
  have "set (concat (F c)) \<inter> set (concat (concat (map F cs))) = {}"
  proof (rule ccontr)
    assume "\<not> ?thesis"
    then obtain p run c' run' where "run \<in> set (F c)" "p \<in> set run"
      "c' \<in> set cs" "run' \<in> set (F c')" "p \<in> set run'"
      by auto
    then have "key p = c" "key p = c'" using Cons.prems(2) by auto
    with \<open>c' \<in> set cs\<close> Cons.prems(1) show False by auto
  qed
  with d1 d2 show ?case by simp
qed

lemma vertical_runs_props:
  assumes "get_vertical_runs f = Inr runs"
  shows "distinct (concat runs)"
    and "\<forall>run\<in>set runs. line_run run \<and> (\<forall>p\<in>set run. 0 \<le> fst p \<and> fst p < num_rows f)"
proof -
  from assms obtain bs where bs: "get_berries_in_rectangle f (root_region f) = Inr bs"
    by (cases "get_berries_in_rectangle f (root_region f)") (auto simp: get_vertical_runs_def)
  define F where "F = (\<lambda>col. scan_line bs (map (\<lambda>row. (row, col)) [0 .. num_rows f - 1]) [])"
  have runs: "runs = concat (map F [0 .. num_cols f - 1])"
    using assms bs by (simp add: get_vertical_runs_def F_def)
  have inF: "\<And>c run p. run \<in> set (F c) \<Longrightarrow> p \<in> set run \<Longrightarrow>
       snd p = c \<and> 0 \<le> fst p \<and> fst p < num_rows f"
    using scan_line_runs unfolding F_def by fastforce
  have dF: "\<And>c. distinct (concat (F c))"
    unfolding F_def by (rule scan_line_distinct) (simp add: distinct_map inj_on_def)
  show "distinct (concat runs)"
    unfolding runs by (rule line_runs_distinct [where key = snd]) (auto simp: inF dF)
  show "\<forall>run\<in>set runs. line_run run \<and> (\<forall>p\<in>set run. 0 \<le> fst p \<and> fst p < num_rows f)"
  proof
    fix run assume "run \<in> set runs"
    then obtain c where c: "run \<in> set (F c)" by (auto simp: runs)
    then have "run \<noteq> []" using scan_line_runs unfolding F_def by blast
    moreover have "\<forall>p\<in>set run. snd p = c" using inF [OF c] by blast
    ultimately have "line_run run" unfolding line_run_def by blast
    then show "line_run run \<and> (\<forall>p\<in>set run. 0 \<le> fst p \<and> fst p < num_rows f)"
      using inF [OF c] by blast
  qed
qed

lemma horizontal_runs_props:
  assumes "get_horizontal_runs f = Inr runs"
  shows "distinct (concat runs)"
    and "\<forall>run\<in>set runs. line_run run \<and> (\<forall>p\<in>set run. 0 \<le> fst p \<and> fst p < num_rows f)"
proof -
  from assms obtain bs where bs: "get_berries_in_rectangle f (root_region f) = Inr bs"
    by (cases "get_berries_in_rectangle f (root_region f)") (auto simp: get_horizontal_runs_def)
  define F where "F = (\<lambda>row. scan_line bs (map (\<lambda>col. (row, col)) [0 .. num_cols f - 1]) [])"
  have runs: "runs = concat (map F [0 .. num_rows f - 1])"
    using assms bs by (simp add: get_horizontal_runs_def F_def)
  have inF: "\<And>r run p. run \<in> set (F r) \<Longrightarrow> p \<in> set run \<Longrightarrow> fst p = r"
    using scan_line_runs unfolding F_def by fastforce
  have dF: "\<And>r. distinct (concat (F r))"
    unfolding F_def by (rule scan_line_distinct) (simp add: distinct_map inj_on_def)
  show "distinct (concat runs)"
    unfolding runs by (rule line_runs_distinct [where key = fst]) (auto simp: inF dF)
  show "\<forall>run\<in>set runs. line_run run \<and> (\<forall>p\<in>set run. 0 \<le> fst p \<and> fst p < num_rows f)"
  proof
    fix run assume "run \<in> set runs"
    then obtain r where r: "r \<in> set [0 .. num_rows f - 1]" "run \<in> set (F r)"
      by (auto simp: runs)
    then have "run \<noteq> []" using scan_line_runs unfolding F_def by blast
    moreover have all: "\<forall>p\<in>set run. fst p = r" using inF [OF r(2)] by blast
    ultimately have "line_run run" unfolding line_run_def by blast
    then show "line_run run \<and> (\<forall>p\<in>set run. 0 \<le> fst p \<and> fst p < num_rows f)"
      using all r(1) by auto
  qed
qed

lemma pointlist2rectangle_nonempty:
  "run \<noteq> [] \<Longrightarrow> pointlist2rectangle run = Inr (bounding_box (hd run) (tl run))"
  by (cases run) (simp_all add: pointlist2rectangle_def)

lemma map_or_error_all:
  "\<forall>x\<in>set xs. h x = Inr (k x) \<Longrightarrow> map_or_error h xs = Inr (map k xs)"
  by (induction xs) simp_all

lemma bounding_box_proper: "proper (bounding_box p ps)"
proof -
  have "fold min (map fst ps) (fst p) \<le> fst p" "fst p \<le> fold max (map fst ps) (fst p)"
       "fold min (map snd ps) (snd p) \<le> snd p" "snd p \<le> fold max (map snd ps) (snd p)"
    by (rule fold_min_le(1) fold_max_ge(1))+
  then show ?thesis unfolding proper_def bounding_box_bounds by linarith
qed

lemma bounding_box_in_rows:
  assumes "\<forall>q\<in>set (p # ps). 0 \<le> fst q \<and> fst q < num_rows f"
  shows "in_rows f (bounding_box p ps)"
proof -
  obtain q1 q3 where "q1 \<in> set (p # ps)" "fst q1 = top_of (bounding_box p ps)"
    "q3 \<in> set (p # ps)" "fst q3 = bottom_of (bounding_box p ps)"
    using bounding_box_attained(1,3) [of p ps] by blast
  with assms have "0 \<le> top_of (bounding_box p ps)" "bottom_of (bounding_box p ps) < num_rows f"
    by (metis, metis)
  then show ?thesis by (simp add: in_rows_def bounding_box_proper)
qed

lemma bounding_box_corner:
  assumes "line_run (p # ps)"
  shows "(top_of (bounding_box p ps), left_of (bounding_box p ps)) \<in> set (p # ps)"
proof -
  obtain q1 q2 where q1: "q1 \<in> set (p # ps)" "fst q1 = top_of (bounding_box p ps)"
    and q2: "q2 \<in> set (p # ps)" "snd q2 = left_of (bounding_box p ps)"
    using bounding_box_attained(1,2) [of p ps] by blast
  from assms consider (col) c where "\<forall>q\<in>set (p # ps). snd q = c"
    | (row) r where "\<forall>q\<in>set (p # ps). fst q = r"
    unfolding line_run_def by blast
  then show ?thesis
  proof cases
    case col
    then have "snd q1 = snd q2" using q1(1) q2(1) by metis
    then have "q1 = (top_of (bounding_box p ps), left_of (bounding_box p ps))"
      using q1(2) q2(2) by (cases q1) simp
    with q1(1) show ?thesis by simp
  next
    case row
    then have "fst q2 = fst q1" using q1(1) q2(1) by metis
    then have "q2 = (top_of (bounding_box p ps), left_of (bounding_box p ps))"
      using q1(2) q2(2) by (cases q2) simp
    with q2(1) show ?thesis by simp
  qed
qed

lemma run_boxes_distinct:
  "distinct (concat rs) \<Longrightarrow> \<forall>run\<in>set rs. line_run run \<Longrightarrow>
   distinct (map (\<lambda>run. bounding_box (hd run) (tl run)) rs)"
proof (induction rs)
  case Nil
  show ?case by simp
next
  case (Cons run rs)
  let ?box = "\<lambda>run. bounding_box (hd run) (tl run)"
  have ih: "distinct (map ?box rs)" using Cons by simp
  have "?box run \<notin> ?box ` set rs"
  proof
    assume "?box run \<in> ?box ` set rs"
    then obtain run' where run': "run' \<in> set rs" "?box run = ?box run'" by auto
    have lr: "line_run run" "line_run run'" using Cons.prems(2) run'(1) by simp_all
    then have ne: "run = hd run # tl run" "run' = hd run' # tl run'"
      by (simp_all add: line_run_def)
    have "(top_of (?box run), left_of (?box run)) \<in> set run"
      using bounding_box_corner [of "hd run" "tl run"] lr(1) ne(1) by simp
    moreover have "(top_of (?box run'), left_of (?box run')) \<in> set run'"
      using bounding_box_corner [of "hd run'" "tl run'"] lr(2) ne(2) by simp
    ultimately have "set run \<inter> set (concat rs) \<noteq> {}" using run' by auto
    with Cons.prems(1) show False by simp
  qed
  with ih show ?case by simp
qed

lemma runs_to_rectangles:
  assumes d: "distinct (concat runs)"
    and lr: "\<forall>run\<in>set runs. line_run run \<and> (\<forall>p\<in>set run. 0 \<le> fst p \<and> fst p < num_rows f)"
  shows "\<exists>rects. map_or_error pointlist2rectangle runs = Inr rects \<and> part_ok f rects"
proof -
  let ?box = "\<lambda>run. bounding_box (hd run) (tl run)"
  have "\<forall>run\<in>set runs. pointlist2rectangle run = Inr (?box run)"
    using lr by (simp add: line_run_def pointlist2rectangle_nonempty)
  then have eq: "map_or_error pointlist2rectangle runs = Inr (map ?box runs)"
    by (rule map_or_error_all)
  have "distinct (map ?box runs)" using run_boxes_distinct [OF d] lr by blast
  moreover have "\<forall>r\<in>set (map ?box runs). in_rows f r"
  proof
    fix r assume "r \<in> set (map ?box runs)"
    then obtain run where run: "run \<in> set runs" "r = ?box run" by auto
    then have "run = hd run # tl run" using lr by (simp add: line_run_def)
    then have "\<forall>q\<in>set (hd run # tl run). 0 \<le> fst q \<and> fst q < num_rows f"
      using lr run(1) by metis
    then show "in_rows f r" unfolding run(2) by (rule bounding_box_in_rows)
  qed
  ultimately show ?thesis using eq by (simp add: part_ok_def)
qed

lemma fold_append_unless:
  "fold (\<lambda>x p. if A x then p else p @ [h x]) xs prt = prt @ map h (filter (\<lambda>x. \<not> A x) xs)"
  by (induction xs arbitrary: prt) simp_all

lemma assign_open_greenhouses_ok:
  assumes bs: "get_berries_in_rectangle f (root_region f) = Inr bs" "distinct bs"
    "\<forall>b\<in>set bs. 0 \<le> fst b \<and> fst b < num_rows f"
    and ok: "part_ok f prt"
  shows "\<exists>prt'. assign_open_greenhouses f prt = Inr prt' \<and> part_ok f prt'"
proof -
  let ?single = "\<lambda>berry. make_rectangle (fst berry) (snd berry) (fst berry) (snd berry)"
  let ?open = "filter (\<lambda>b. \<not> list_ex (\<lambda>r. contains r b) (sort_key area_of prt)) bs"
  have eq: "assign_open_greenhouses f prt = Inr (prt @ map ?single ?open)"
    by (simp add: assign_open_greenhouses_def bs(1) Let_def fold_append_unless)
  have inj: "inj_on ?single (set ?open)"
    by (auto simp: inj_on_def make_rectangle_def Let_def)
  have d1: "distinct (map ?single ?open)"
    using bs(2) inj by (simp add: distinct_map)
  have own: "\<And>b. contains (?single b) b"
    by (simp add: contains_iff make_rectangle_def Let_def)
  have d2: "set prt \<inter> set (map ?single ?open) = {}"
  proof (rule ccontr)
    assume "\<not> ?thesis"
    then obtain b where b: "b \<in> set ?open" "?single b \<in> set prt" by auto
    then have "\<forall>r\<in>set prt. \<not> contains r b" by (simp add: list_ex_iff)
    with b(2) own show False by blast
  qed
  have rows: "\<forall>r\<in>set (map ?single ?open). in_rows f r"
    using bs(3) by (auto simp: in_rows_def proper_def make_rectangle_def Let_def)
  have "part_ok f (prt @ map ?single ?open)"
    using ok d1 d2 rows unfolding part_ok_def by auto
  with eq show ?thesis by simp
qed

lemma strawberries_loop_in_range:
  "\<forall>i\<in>set is. 0 \<le> i \<and> i < int (length (rows f)) \<Longrightarrow>
   \<exists>n. strawberries_loop f rect is num = Inr n"
  by (induction "is" arbitrary: num) (simp_all add: py_index_in_range)

lemma num_strawberries_in_rows:
  assumes "field_ok f" "in_rows f r"
  shows "\<exists>n. num_strawberries f r = Inr n"
proof -
  have "num_rows f = int (length (rows f))" using assms(1) by (simp add: field_ok_def)
  then have "\<forall>i\<in>set [top_of r .. bottom_of r]. 0 \<le> i \<and> i < int (length (rows f))"
    using assms(2) by (auto simp: in_rows_def)
  then show ?thesis unfolding num_strawberries_def by (rule strawberries_loop_in_range)
qed

lemma merge_in_rows:
  "in_rows f a \<Longrightarrow> in_rows f b \<Longrightarrow> in_rows f (merge_rectangles a b)"
  by (auto simp: in_rows_def proper_def merge_rectangles_def merge_bounds)

lemma three_overlap_not_two:
  assumes d: "distinct prt" and mem: "a \<in> set prt" "b \<in> set prt" "t \<in> set prt"
    and ne: "a \<noteq> b" "t \<noteq> a" "t \<noteq> b" and P: "P a" "P b" "P t"
  shows "length (filter P prt) \<noteq> 2"
proof -
  have "{a, b, t} \<subseteq> set (filter P prt)" using mem P by simp
  then have "card {a, b, t} \<le> card (set (filter P prt))" by (intro card_mono) simp_all
  moreover have "card {a, b, t} = 3" using ne by simp
  moreover have "distinct (filter P prt)" using d by simp
  then have "card (set (filter P prt)) = length (filter P prt)"
    by (rule distinct_card)
  ultimately show ?thesis by simp
qed

lemma proper_overlaps_self: "proper r \<Longrightarrow> overlaps r r"
  by (auto simp: overlaps_def proper_def)

lemma density_pass_ok:
  assumes ok: "field_ok f"
  shows "part_ok f prt \<Longrightarrow> \<forall>(a, b)\<in>set ps. a \<noteq> b \<Longrightarrow>
         \<exists>prt' n'. density_pass f ps prt n = Inr (prt', n') \<and> part_ok f prt'"
proof (induction ps arbitrary: prt n)
  case Nil
  then show ?case by simp
next
  case (Cons p ps)
  obtain a b where p: "p = (a, b)" by (cases p)
  have ab: "a \<noteq> b" using Cons.prems(2) p by simp
  have rest: "\<forall>(a, b)\<in>set ps. a \<noteq> b" using Cons.prems(2) by simp
  note ih = Cons.IH [OF _ rest]
  show ?case
  proof (cases "a \<in> set prt \<and> b \<in> set prt")
    case False
    then have "density_pass f (p # ps) prt n = density_pass f ps prt n"
      by (auto simp: p)
    with ih [OF Cons.prems(1)] show ?thesis by simp
  next
    case True
    let ?m = "merge_rectangles a b"
    have rows_ab: "in_rows f a" "in_rows f b" using True Cons.prems(1) by (simp_all add: part_ok_def)
    then have rows_m: "in_rows f ?m" by (rule merge_in_rows)
    then obtain cnt where cnt: "num_strawberries f ?m = Inr cnt"
      using num_strawberries_in_rows [OF ok] by blast
    show ?thesis
    proof (cases "cnt = area_of ?m \<and> count_overlaps ?m prt 0 = 2")
      case False
      then have "density_pass f (p # ps) prt n = density_pass f ps prt n"
        using True cnt by (auto simp: p Let_def)
      with ih [OF Cons.prems(1)] show ?thesis by simp
    next
      case acc: True
      let ?new = "remove1 b (remove1 a prt) @ [?m]"
      have d: "distinct prt" using Cons.prems(1) by (simp add: part_ok_def)
      have b_in: "b \<in> set (remove1 a prt)" using True ab by simp
      have step: "density_pass f (p # ps) prt n = density_pass f ps ?new (n + 1)"
        using True cnt acc b_in by (simp add: p Let_def py_remove_def)
      have set_rest: "set (remove1 b (remove1 a prt)) = set prt - {a, b}"
        using d by auto
      have "?m \<notin> set prt - {a, b}"
      proof
        assume m: "?m \<in> set prt - {a, b}"
        have "overlaps ?m a" "overlaps ?m b"
          using rows_ab by (simp_all add: in_rows_def merge_rectangles_def
              overlaps_merge_left overlaps_merge_right)
        moreover have "overlaps ?m ?m"
          using rows_m by (simp add: in_rows_def proper_overlaps_self)
        ultimately have "length (filter (overlaps ?m) prt) \<noteq> 2"
          using three_overlap_not_two [OF d, of a b ?m "overlaps ?m"] True ab m by simp
        with acc show False by (simp add: count_overlaps_two)
      qed
      then have "distinct ?new" using d set_rest by simp
      moreover have "\<forall>r\<in>set ?new. in_rows f r"
        using Cons.prems(1) rows_m set_rest by (auto simp: part_ok_def)
      ultimately have "part_ok f ?new" by (simp add: part_ok_def)
      from ih [OF this, of "n + 1"] step show ?thesis by simp
    qed
  qed
qed

lemma combinations2_distinct:
  "distinct xs \<Longrightarrow> (a, b) \<in> set (combinations2 xs) \<Longrightarrow> a \<noteq> b"
  using combinations2_sound [of a b xs] by auto

lemma combine_loop_ok:
  assumes ok: "field_ok f"
  shows "part_ok f prt \<Longrightarrow>
         \<exists>prt' g'. combine_loop f prt prt g = Inr (prt', g') \<and> part_ok f prt'"
proof (induction "length prt" arbitrary: prt g rule: less_induct)
  case less
  obtain sh g1 where sh: "shuffle prt g = (sh, g1)" by (cases "shuffle prt g")
  have ps: "pairs prt g = (combinations2 sh, sh, g1)" by (simp add: pairs_def sh)
  have dsh: "distinct sh" using shuffle_props(4) [OF sh] less.prems by (simp add: part_ok_def)
  have ne: "\<forall>(a, b)\<in>set (combinations2 sh). a \<noteq> b"
    by (auto dest: combinations2_distinct [OF dsh])
  obtain prt1 n1 where pass: "density_pass f (combinations2 sh) prt 0 = Inr (prt1, n1)"
    and ok1: "part_ok f prt1"
    using density_pass_ok [OF ok less.prems ne, of 0] by blast
  show ?case
  proof (cases "n1 = 0")
    case True
    have "combine_loop f prt prt g = Inr (prt1, g1)"
      by (subst combine_loop.simps) (simp add: ps pass True)
    with ok1 show ?thesis by blast
  next
    case False
    have "length prt1 + n1 = length prt + 0" using pass by (rule density_pass_length)
    with False have shorter: "length prt1 < length prt" by simp
    have "combine_loop f prt prt g = combine_loop f prt1 prt1 g1"
      by (subst combine_loop.simps) (simp add: ps pass False)
    with less.hyps [OF shorter ok1, of g1] show ?thesis by simp
  qed
qed

lemma runs_to_partition_ok:
  assumes f: "f = StrawberryField n data_rows"
    and runs: "runs = Inr rs" "distinct (concat rs)"
      "\<forall>run\<in>set rs. line_run run \<and> (\<forall>p\<in>set run. 0 \<le> fst p \<and> fst p < num_rows f)"
  shows "\<exists>prt g'. runs_to_partition f runs g = Inr (prt, g')"
proof -
  have ok: "field_ok f" using f by (simp add: field_ok_StrawberryField)
  obtain bs where bs: "get_berries_in_rectangle f (root_region f) = Inr bs" "distinct bs"
    "\<forall>b\<in>set bs. 0 \<le> fst b \<and> fst b < num_rows f"
    using root_berries [OF f] by metis
  obtain rects where rects: "map_or_error pointlist2rectangle rs = Inr rects" "part_ok f rects"
    using runs_to_rectangles [OF runs(2,3)] by blast
  obtain assigned where asg: "assign_open_greenhouses f rects = Inr assigned" "part_ok f assigned"
    using assign_open_greenhouses_ok [OF bs rects(2)] by blast
  obtain prt g' where "combine_loop f assigned assigned g = Inr (prt, g')"
    using combine_loop_ok [OF ok asg(2)] by blast
  then show ?thesis
    by (simp add: runs_to_partition_def runs(1) rects(1) asg(1) combine_and_maintain_density_def)
qed

lemma mix_second_total:
  "fst ` set l \<subseteq> fst ` set mix \<Longrightarrow> \<exists>mix'. mix_second l mix = Inr mix'"
proof (induction l mix rule: mix_second.induct)
  case (1 mix)
  show ?case by simp
next
  case (2 berry idx rest mix)
  have "berry \<in> fst ` set mix" using "2.prems" by auto
  then obtain ids where ids: "map_of mix berry = Some ids"
    by (metis map_of_eq_None_iff not_None_eq)
  have "fst ` set rest \<subseteq> fst ` set (AList.update berry (ids @ [idx]) mix)"
    using "2.prems" by (auto simp: keys_update)
  from "2.IH" [OF ids this] ids show ?case by simp
qed

lemma mirror_loop_total:
  "set order \<subseteq> fst ` set mix \<Longrightarrow> \<forall>k pts. map_of mirror k = Some pts \<longrightarrow> pts \<noteq> [] \<Longrightarrow>
   \<exists>mirror'. mirror_loop order mix mirror = Inr mirror' \<and>
              (\<forall>k pts. map_of mirror' k = Some pts \<longrightarrow> pts \<noteq> [])"
proof (induction order arbitrary: mirror)
  case Nil
  then show ?case by simp
next
  case (Cons berry rest)
  have "berry \<in> fst ` set mix" using Cons.prems(1) by simp
  then obtain key where key: "map_of mix berry = Some key"
    by (metis map_of_eq_None_iff not_None_eq)
  define mirror1 where
    "mirror1 = (case map_of mirror key of None \<Rightarrow> AList.update key [] mirror | Some v \<Rightarrow> mirror)"
  obtain v where v: "map_of mirror1 key = Some v"
    by (cases "map_of mirror key") (auto simp: mirror1_def update_conv')
  have others: "\<forall>k pts. k \<noteq> key \<longrightarrow> map_of mirror1 k = Some pts \<longrightarrow> pts \<noteq> []"
    using Cons.prems(2) by (auto simp: mirror1_def update_conv' split: option.splits)
  have "\<forall>k pts. map_of (AList.update key (v @ [berry]) mirror1) k = Some pts \<longrightarrow> pts \<noteq> []"
    using others by (auto simp: update_conv')
  moreover have "set rest \<subseteq> fst ` set mix" using Cons.prems(1) by simp
  ultimately obtain mirror' where
    "mirror_loop rest mix (AList.update key (v @ [berry]) mirror1) = Inr mirror'"
    "\<forall>k pts. map_of mirror' k = Some pts \<longrightarrow> pts \<noteq> []"
    using Cons.IH by blast
  then show ?case using key v by (simp add: mirror1_def Let_def)
qed

lemma state_loop_total:
  "set order \<subseteq> fst ` set mirror \<Longrightarrow> \<forall>k pts. map_of mirror k = Some pts \<longrightarrow> pts \<noteq> [] \<Longrightarrow>
   \<exists>state'. state_loop order mirror state = Inr state'"
proof (induction order arbitrary: state)
  case Nil
  show ?case by simp
next
  case (Cons k rest)
  have "k \<in> fst ` set mirror" using Cons.prems(1) by simp
  then obtain pts where pts: "map_of mirror k = Some pts"
    by (metis map_of_eq_None_iff not_None_eq)
  then have "pts \<noteq> []" using Cons.prems(2) by blast
  then have rect: "pointlist2rectangle pts = Inr (bounding_box (hd pts) (tl pts))"
    by (rule pointlist2rectangle_nonempty)
  have "set rest \<subseteq> fst ` set mirror" using Cons.prems(1) by simp
  from Cons.IH [OF this Cons.prems(2)] pts rect show ?case by simp
qed

lemma cross_partitions_total:
  assumes f: "f = StrawberryField n data_rows"
  shows "\<exists>state g'. cross_partitions f horiz_runs vertical_runs g = Inr (state, g')"
proof -
  obtain bs where bs: "get_berries_in_rectangle f (root_region f) = Inr bs"
    using root_region_berries [OF f] by blast
  define lh where "lh = map (\<lambda>berry. (berry, get_rect_id berry horiz_runs)) bs"
  define lv where "lv = map (\<lambda>berry. (berry, get_rect_id berry vertical_runs)) bs"
  have lhe: "list_berries f horiz_runs = Inr lh" and lve: "list_berries f vertical_runs = Inr lv"
    by (simp_all add: list_berries_def bs lh_def lv_def)
  have "fst ` set lv = fst ` set lh" by (auto simp: lh_def lv_def image_iff)
  then have "fst ` set lv \<subseteq> fst ` set (mix_first lh [])" by (simp add: mix_first_keys)
  then obtain mix where mix: "mix_second lv (mix_first lh []) = Inr mix"
    using mix_second_total by blast
  obtain berry_order g1 where bo: "shuffle (map fst mix) g = (berry_order, g1)"
    by (cases "shuffle (map fst mix) g")
  have "set berry_order \<subseteq> fst ` set mix" using shuffle_props(2) [OF bo] by simp
  then obtain mirror where mirror: "mirror_loop berry_order mix [] = Inr mirror"
    and ne: "\<forall>k pts. map_of mirror k = Some pts \<longrightarrow> pts \<noteq> []"
    using mirror_loop_total [of berry_order mix "[]"] by auto
  obtain key_order g2 where ko: "shuffle (map fst mirror) g1 = (key_order, g2)"
    by (cases "shuffle (map fst mirror) g1")
  have "set key_order \<subseteq> fst ` set mirror" using shuffle_props(2) [OF ko] by simp
  then obtain state where "state_loop key_order mirror [] = Inr state"
    using state_loop_total [OF _ ne] by blast
  then show ?thesis
    by (simp add: cross_partitions_def lhe lve mix bo mirror ko)
qed

lemma get_start_state_total:
  assumes f: "f = StrawberryField n data_rows"
  shows "\<exists>state g'. get_start_state f g = Inr (state, g')"
proof -
  obtain bs where bs: "get_berries_in_rectangle f (root_region f) = Inr bs"
    using root_region_berries [OF f] by blast
  obtain vr where vr: "get_vertical_runs f = Inr vr"
    by (simp add: get_vertical_runs_def bs)
  obtain hr where hr: "get_horizontal_runs f = Inr hr"
    by (simp add: get_horizontal_runs_def bs)
  obtain vertical_runs g1 where
    v: "runs_to_partition f (get_vertical_runs f) g = Inr (vertical_runs, g1)"
    using runs_to_partition_ok [OF f vr vertical_runs_props [OF vr]] by blast
  obtain horiz_runs g2 where
    h: "runs_to_partition f (get_horizontal_runs f) g1 = Inr (horiz_runs, g2)"
    using runs_to_partition_ok [OF f hr horizontal_runs_props [OF hr]] by blast
  obtain state g' where "cross_partitions f horiz_runs vertical_runs g2 = Inr (state, g')"
    using cross_partitions_total [OF f] by blast
  then show ?thesis by (simp add: get_start_state_def v h)
qed

text \<open>
  C6. For every field built by the constructor and every supply of random
  numbers, \<open>get_start_state\<close> returns a partition, and every occupied point of
  the field lies in a member of it.
\<close>

theorem start_state_covers_field:
  assumes "f = StrawberryField n data_rows"
  shows "\<exists>state g'. get_start_state f g = Inr (state, g') \<and>
                      (\<forall>b\<in>occupied f. \<exists>r\<in>set state. contains r b)"
proof -
  obtain state g' where run: "get_start_state f g = Inr (state, g')"
    using get_start_state_total [OF assms] by blast
  have "\<forall>b\<in>occupied f. \<exists>r\<in>set state. contains r b"
    using start_state_covers [OF assms run] by blast
  with run show ?thesis by blast
qed

theorem start_state_covers_field_witness:
  "get_start_state (StrawberryField 4 [''@@.'', ''@@.'', ''..@'']) [] =
     Inr ([Rectangle 2 2 2 2 11 1, Rectangle 0 0 1 1 14 4], []) \<and>
   occupied (StrawberryField 4 [''@@.'', ''@@.'', ''..@'']) =
     {(0, 0), (0, 1), (1, 0), (1, 1), (2, 2)} \<and>
   contains (Rectangle 0 0 1 1 14 4) (0, 0) \<and> contains (Rectangle 0 0 1 1 14 4) (0, 1) \<and>
   contains (Rectangle 0 0 1 1 14 4) (1, 0) \<and> contains (Rectangle 0 0 1 1 14 4) (1, 1) \<and>
   contains (Rectangle 2 2 2 2 11 1) (2, 2)"
proof -
  have ev: "get_start_state (StrawberryField 4 [''@@.'', ''@@.'', ''..@'']) [] =
     Inr ([Rectangle 2 2 2 2 11 1, Rectangle 0 0 1 1 14 4], [])"
    by code_simp
  have occ: "occupied (StrawberryField 4 [''@@.'', ''@@.'', ''..@'']) =
     {(0, 0), (0, 1), (1, 0), (1, 1), (2, 2)}"
    by code_simp
  show ?thesis
    using start_state_covers_field [OF refl, of 4 "[''@@.'', ''@@.'', ''..@'']" "[]"] ev occ
    by simp
qed

section \<open>The acceptance of a merge\<close>

lemma strawberries_loop_in_range_eq:
  "\<forall>i\<in>set is. 0 \<le> i \<and> i < int (length (rows f)) \<Longrightarrow>
   strawberries_loop f rect is num =
     Inr (num + int (length (concat (map (\<lambda>i. filter (\<lambda>berry. left_of rect \<le> snd berry \<and>
                                                  snd berry \<le> right_of rect) (rows f ! nat i)) is))))"
  by (induction "is" arbitrary: num) (simp_all add: py_index_in_range)

lemma num_strawberries_counts:
  assumes ok: "field_ok f" and t: "0 \<le> top_of rect" and b: "bottom_of rect < num_rows f"
  shows "num_strawberries f rect = Inr (int (card {p \<in> occupied f. contains rect p}))"
proof -
  let ?colP = "\<lambda>berry. left_of rect \<le> snd berry \<and> snd berry \<le> right_of rect"
  let ?is = "[top_of rect .. bottom_of rect]"
  have len: "num_rows f = int (length (rows f))" using ok by (simp add: field_ok_def)
  have rng: "\<forall>i\<in>set ?is. 0 \<le> i \<and> i < int (length (rows f))" using t b len by auto
  have same: "map (\<lambda>i. filter ?colP (rows f ! nat i)) ?is =
              map (\<lambda>i. filter (contains rect) (rows f ! nat i)) ?is"
  proof (rule map_cong [OF refl], rule filter_cong [OF refl])
    fix i p assume i: "i \<in> set ?is" and p: "p \<in> set (rows f ! nat i)"
    have i0: "0 \<le> i" "i < int (length (rows f))" using rng i by blast+
    then have "nat i < length (rows f)" by simp
    with ok p have "fst p = int (nat i)" by (simp add: field_ok_def)
    then have "fst p = i" using i0 by simp
    then show "?colP p = contains rect p" using i by (auto simp: contains_iff)
  qed
  define bs where "bs = concat (map (\<lambda>i. filter (contains rect) (rows f ! nat i)) ?is)"
  have gb: "get_berries_in_rectangle f rect = Inr bs"
    using rng by (simp add: get_berries_in_rectangle_def berries_loop_in_range bs_def)
  have "num_strawberries f rect = Inr (int (length bs))"
    using rng by (simp add: num_strawberries_def strawberries_loop_in_range_eq same bs_def)
  moreover have "distinct bs" using get_berries_in_grid_distinct [OF ok t b gb] .
  moreover have "set bs = {p \<in> occupied f. contains rect p}"
    using get_berries_in_grid [OF ok t b] gb by simp
  ultimately show ?thesis by (metis distinct_card)
qed

text \<open>
  C2. The test \<open>count_overlaps == 2\<close> holds exactly when two members of the
  partition overlap the merged rectangle. For two members at different
  positions that each have a cell, both overlap it, so the test holds exactly
  when no member at a third position does. A pair that fails the test leaves
  the state of the search loop as it was, and a pair that passes it enters its
  successor (shown for a score below the best one). The consolidation pass
  leaves the partition as it was unless the point count of the merged rectangle
  equals its area and the same test holds, and merges the pair when both do;
  the point count \<open>num_strawberries\<close> is the number of occupied points in the
  rectangle, for a field built by the constructor and a rectangle in its rows.
\<close>

theorem merge_accepted_iff_exactly_two_overlap:
  "(count_overlaps (merge_rectangles h1 h2) gl 0 = 2 \<longleftrightarrow>
      length (filter (overlaps (merge_rectangles h1 h2)) gl) = 2) \<and>
   (i < length gl \<and> j < length gl \<and> i \<noteq> j \<and> proper (gl ! i) \<and> proper (gl ! j) \<longrightarrow>
      overlaps (merge_rectangles (gl ! i) (gl ! j)) (gl ! i) \<and>
      overlaps (merge_rectangles (gl ! i) (gl ! j)) (gl ! j) \<and>
      (count_overlaps (merge_rectangles (gl ! i) (gl ! j)) gl 0 = 2 \<longleftrightarrow>
         (\<forall>k<length gl. overlaps (merge_rectangles (gl ! i) (gl ! j)) (gl ! k)
                         \<longrightarrow> k = i \<or> k = j))) \<and>
   (count_overlaps (merge_rectangles h1 h2) gl 0 \<noteq> 2 \<longrightarrow>
      pair_loop gl base ((h1, h2) # ps) st = pair_loop gl base ps st) \<and>
   (count_overlaps (merge_rectangles h1 h2) gl 0 = 2 \<and> h1 \<in> set gl \<and>
      h2 \<in> set (remove1 h1 gl) \<and> incremental_score base h1 h2 < fst st \<longrightarrow>
      pair_loop gl base ((h1, h2) # ps) st =
        pair_loop gl base ps
          (incremental_score base h1 h2,
           [frozenset (remove1 h2 (remove1 h1 gl) @ [merge_rectangles h1 h2])])) \<and>
   (h1 \<in> set prt \<and> h2 \<in> set prt \<and>
      \<not> (num_strawberries f (merge_rectangles h1 h2) = Inr (area_of (merge_rectangles h1 h2)) \<and>
         count_overlaps (merge_rectangles h1 h2) prt 0 = 2) \<and>
      density_pass f ((h1, h2) # ps) prt n = Inr r \<longrightarrow>
      density_pass f ps prt n = Inr r) \<and>
   (h1 \<in> set prt \<and> h2 \<in> set (remove1 h1 prt) \<and>
      num_strawberries f (merge_rectangles h1 h2) = Inr (area_of (merge_rectangles h1 h2)) \<and>
      count_overlaps (merge_rectangles h1 h2) prt 0 = 2 \<longrightarrow>
      density_pass f ((h1, h2) # ps) prt n =
        density_pass f ps (remove1 h2 (remove1 h1 prt) @ [merge_rectangles h1 h2]) (n + 1)) \<and>
   (f = StrawberryField maxg data_rows \<and> in_rows f (merge_rectangles h1 h2) \<longrightarrow>
      num_strawberries f (merge_rectangles h1 h2) =
        Inr (int (card {q \<in> occupied f. contains (merge_rectangles h1 h2) q})))"
proof (intro conjI impI)
  show "count_overlaps (merge_rectangles h1 h2) gl 0 = 2 \<longleftrightarrow>
      length (filter (overlaps (merge_rectangles h1 h2)) gl) = 2"
    by (rule count_overlaps_two)
next
  assume a: "i < length gl \<and> j < length gl \<and> i \<noteq> j \<and> proper (gl ! i) \<and> proper (gl ! j)"
  then show o1: "overlaps (merge_rectangles (gl ! i) (gl ! j)) (gl ! i)"
    by (simp add: merge_rectangles_def overlaps_merge_left)
  from a show o2: "overlaps (merge_rectangles (gl ! i) (gl ! j)) (gl ! j)"
    by (simp add: merge_rectangles_def overlaps_merge_right)
  from a o1 o2 show "count_overlaps (merge_rectangles (gl ! i) (gl ! j)) gl 0 = 2 \<longleftrightarrow>
         (\<forall>k<length gl. overlaps (merge_rectangles (gl ! i) (gl ! j)) (gl ! k)
                         \<longrightarrow> k = i \<or> k = j)"
    using exactly_two_positions [of i gl j "overlaps (merge_rectangles (gl ! i) (gl ! j))"]
    by (simp add: count_overlaps_two)
next
  assume "count_overlaps (merge_rectangles h1 h2) gl 0 \<noteq> 2"
  then show "pair_loop gl base ((h1, h2) # ps) st = pair_loop gl base ps st"
    by (cases st) (simp add: Let_def)
next
  assume a: "count_overlaps (merge_rectangles h1 h2) gl 0 = 2 \<and> h1 \<in> set gl \<and>
      h2 \<in> set (remove1 h1 gl) \<and> incremental_score base h1 h2 < fst st"
  then have "make_successor gl h1 h2 = Inr (remove1 h2 (remove1 h1 gl) @ [merge_rectangles h1 h2])"
    by (simp add: make_successor_score(1))
  with a show "pair_loop gl base ((h1, h2) # ps) st =
        pair_loop gl base ps
          (incremental_score base h1 h2,
           [frozenset (remove1 h2 (remove1 h1 gl) @ [merge_rectangles h1 h2])])"
    by (cases st) (simp add: Let_def)
next
  assume a: "h1 \<in> set prt \<and> h2 \<in> set prt \<and>
      \<not> (num_strawberries f (merge_rectangles h1 h2) = Inr (area_of (merge_rectangles h1 h2)) \<and>
         count_overlaps (merge_rectangles h1 h2) prt 0 = 2) \<and>
      density_pass f ((h1, h2) # ps) prt n = Inr r"
  then show "density_pass f ps prt n = Inr r"
    by (cases "num_strawberries f (merge_rectangles h1 h2)")
       (auto simp: Let_def split: if_splits)
next
  assume a: "h1 \<in> set prt \<and> h2 \<in> set (remove1 h1 prt) \<and>
      num_strawberries f (merge_rectangles h1 h2) = Inr (area_of (merge_rectangles h1 h2)) \<and>
      count_overlaps (merge_rectangles h1 h2) prt 0 = 2"
  then have "h2 \<in> set prt" by (metis notin_set_remove1)
  with a show "density_pass f ((h1, h2) # ps) prt n =
        density_pass f ps (remove1 h2 (remove1 h1 prt) @ [merge_rectangles h1 h2]) (n + 1)"
    by (simp add: Let_def py_remove_def)
next
  assume a: "f = StrawberryField maxg data_rows \<and> in_rows f (merge_rectangles h1 h2)"
  then have ok: "field_ok f" by (simp add: field_ok_StrawberryField)
  from a have "in_rows f (merge_rectangles h1 h2)" by blast
  then have "0 \<le> top_of (merge_rectangles h1 h2)"
    "bottom_of (merge_rectangles h1 h2) < num_rows f"
    by (simp_all add: in_rows_def)
  then show "num_strawberries f (merge_rectangles h1 h2) =
        Inr (int (card {q \<in> occupied f. contains (merge_rectangles h1 h2) q}))"
    by (rule num_strawberries_counts [OF ok])
qed

theorem merge_accepted_iff_exactly_two_overlap_witness:
  "proper (make_rectangle 0 0 0 0) \<and> proper (make_rectangle 0 1 0 1) \<and>
   count_overlaps (merge_rectangles (make_rectangle 0 0 0 0) (make_rectangle 0 1 0 1))
     [make_rectangle 0 0 0 0, make_rectangle 0 1 0 1, make_rectangle 2 2 2 2] 0 = 2 \<and>
   pair_loop [make_rectangle 0 0 0 0, make_rectangle 0 1 0 1, make_rectangle 2 2 2 2] 33
     [(make_rectangle 0 0 0 0, make_rectangle 0 1 0 1)] (maxsize, []) =
     Inr (23, [[make_rectangle 2 2 2 2, make_rectangle 0 0 0 1]]) \<and>
   count_overlaps (merge_rectangles (make_rectangle 0 0 0 0) (make_rectangle 2 2 2 2))
     [make_rectangle 0 0 0 0, make_rectangle 0 1 0 1, make_rectangle 2 2 2 2] 0 = 3 \<and>
   pair_loop [make_rectangle 0 0 0 0, make_rectangle 0 1 0 1, make_rectangle 2 2 2 2] 33
     [(make_rectangle 0 0 0 0, make_rectangle 2 2 2 2)] (maxsize, []) = Inr (maxsize, []) \<and>
   density_pass (StrawberryField 3 [''@@.'', ''...'', ''..@''])
     [(make_rectangle 0 0 0 0, make_rectangle 0 1 0 1)]
     [make_rectangle 0 0 0 0, make_rectangle 0 1 0 1, make_rectangle 2 2 2 2] 0 =
     Inr ([make_rectangle 2 2 2 2, make_rectangle 0 0 0 1], 1) \<and>
   density_pass (StrawberryField 3 [''@@.'', ''...'', ''..@''])
     [(make_rectangle 0 0 0 0, make_rectangle 2 2 2 2)]
     [make_rectangle 0 0 0 0, make_rectangle 0 1 0 1, make_rectangle 2 2 2 2] 0 =
     Inr ([make_rectangle 0 0 0 0, make_rectangle 0 1 0 1, make_rectangle 2 2 2 2], 0)"
proof -
  have e: "proper (make_rectangle 0 0 0 0)" "proper (make_rectangle 0 1 0 1)"
    "count_overlaps (merge_rectangles (make_rectangle 0 0 0 0) (make_rectangle 0 1 0 1))
       [make_rectangle 0 0 0 0, make_rectangle 0 1 0 1, make_rectangle 2 2 2 2] 0 = 2"
    "count_overlaps (merge_rectangles (make_rectangle 0 0 0 0) (make_rectangle 2 2 2 2))
       [make_rectangle 0 0 0 0, make_rectangle 0 1 0 1, make_rectangle 2 2 2 2] 0 = 3"
    "num_strawberries (StrawberryField 3 [''@@.'', ''...'', ''..@''])
       (merge_rectangles (make_rectangle 0 0 0 0) (make_rectangle 0 1 0 1)) = Inr 2"
    "num_strawberries (StrawberryField 3 [''@@.'', ''...'', ''..@''])
       (merge_rectangles (make_rectangle 0 0 0 0) (make_rectangle 2 2 2 2)) = Inr 3"
    "density_pass (StrawberryField 3 [''@@.'', ''...'', ''..@'']) []
       [make_rectangle 2 2 2 2, make_rectangle 0 0 0 1] 1 =
       Inr ([make_rectangle 2 2 2 2, make_rectangle 0 0 0 1], 1)"
    "density_pass (StrawberryField 3 [''@@.'', ''...'', ''..@''])
       [(make_rectangle 0 0 0 0, make_rectangle 2 2 2 2)]
       [make_rectangle 0 0 0 0, make_rectangle 0 1 0 1, make_rectangle 2 2 2 2] 0 =
       Inr ([make_rectangle 0 0 0 0, make_rectangle 0 1 0 1, make_rectangle 2 2 2 2], 0)"
    by code_simp+
  show ?thesis
    using merge_accepted_iff_exactly_two_overlap
      [of "make_rectangle 0 0 0 0" "make_rectangle 0 1 0 1"
          "[make_rectangle 0 0 0 0, make_rectangle 0 1 0 1, make_rectangle 2 2 2 2]"
          0 1 33 "[]" "(maxsize, [])"
          "[make_rectangle 0 0 0 0, make_rectangle 0 1 0 1, make_rectangle 2 2 2 2]"
          "StrawberryField 3 [''@@.'', ''...'', ''..@'']" 0
          "([make_rectangle 0 0 0 0, make_rectangle 0 1 0 1, make_rectangle 2 2 2 2], 0)"
          3 "[''@@.'', ''...'', ''..@'']"]
      merge_accepted_iff_exactly_two_overlap
      [of "make_rectangle 0 0 0 0" "make_rectangle 2 2 2 2"
          "[make_rectangle 0 0 0 0, make_rectangle 0 1 0 1, make_rectangle 2 2 2 2]"
          0 2 33 "[]" "(maxsize, [])"
          "[make_rectangle 0 0 0 0, make_rectangle 0 1 0 1, make_rectangle 2 2 2 2]"
          "StrawberryField 3 [''@@.'', ''...'', ''..@'']" 0
          "([make_rectangle 0 0 0 0, make_rectangle 0 1 0 1, make_rectangle 2 2 2 2], 0)"
          3 "[''@@.'', ''...'', ''..@'']"]
      e
    by (simp add: make_rectangle_def merge_rectangles_def merge_def incremental_score_def
        frozenset_def maxsize_def Let_def)
qed

section \<open>The answer of the search\<close>

text \<open>
  C9 fails on the field \<open>@.@\<close> with a maximum of one greenhouse: the initial
  partition has two rectangles, \<open>store\<close> refuses it, the loop of \<open>agglomerate\<close>
  (called with the goal 2, as \<open>main\<close> does) ends at once, and the answer is
  \<open>[None]\<close>, no partition.
\<close>

theorem agglomerate_returns_no_partition:
  "get_start_state (StrawberryField 1 [''@.@'']) [] =
     Inr ([Rectangle 0 0 0 0 11 1, Rectangle 0 2 0 2 11 1], []) \<and>
   agglomerate (StrawberryField 1 [''@.@''])
     [Rectangle 0 0 0 0 11 1, Rectangle 0 2 0 2 11 1] 2 [] = Some (Inr ([None], []))"
  by code_simp

end
